theory Spec2Isabelle
  imports Main "HOL-Library.Sublist" "HOL-Library.Multiset" "HOL-Library.AList"
begin

section \<open>The image store of containers/storage (images.go)\<close>

text \<open>
  A shallow embedding of \<^verbatim>\<open>vendor/github.com/containers/storage/images.go\<close>.
  Image records are shared through pointers between the ordered list and the three index
  maps, so the store carries an explicit heap. Every method returns its result together
  with the store it leaves behind, also when it fails.
\<close>

subsection \<open>Data model\<close>

type_synonym digest = string
type_synonym bytes = "nat list"
type_synonym ptr = nat

text \<open>
  A Go map that the code iterates over is kept as an association list with distinct keys;
  the positions of the entries carry no meaning (see \<open>mapOrder\<close> below).
\<close>

type_synonym digestMap = "(string \<times> digest) list"

typedecl flagValue

record Image =
  ID :: string
  Digest :: digest
  Digests :: "digest list"
  Names :: "string list"
  NamesHistory :: "string list"
  TopLayer :: string
  MappedTopLayers :: "string list"
  Metadata :: string
  BigDataNames :: "string list"
  BigDataSizes :: "string \<rightharpoonup> int"
  BigDataDigests :: digestMap
  Created :: nat
  ReadOnly :: bool
  Flags :: "string \<rightharpoonup> flagValue"

datatype error =
    ErrStoreIsReadOnly
  | ErrImageUnknown
  | ErrDuplicateID
  | ErrDuplicateName
  | ErrDuplicateImageNames
  | ErrDigestUnknown
  | ErrInvalidBigDataName
  | ErrNotLockedForWriting
  | ErrInvalidDigest digest
  | ErrDigestManifest
  | ErrInvalidUpdateNameOperation
  | ErrIO

datatype updateNameOperation = setNames | addNames | removeNames

text \<open>
  What the code consumes from outside this file, as parameters:
  \<^item> \<open>Validate\<close>: \<^verbatim>\<open>digest.Digest.Validate() == nil\<close> of go-digest;
  \<^item> \<open>mapOrder\<close>: the order in which one \<^verbatim>\<open>range\<close> over a Go map visits its entries
    (unspecified by the language; any permutation of the entries);
  \<^item> \<open>FromBytes\<close>: \<^verbatim>\<open>digest.Canonical.FromBytes\<close>;
  \<^item> \<open>GenerateRandomID\<close>: the value returned by the k-th call of \<^verbatim>\<open>stringid.GenerateRandomID\<close>;
  \<^item> \<open>Now\<close>: \<^verbatim>\<open>time.Now().UTC()\<close>;
  \<^item> \<open>applyNameOperation\<close>: the helper of the same name (store.go, not in this file);
  \<^item> whether each file-system call of the operation succeeds.
\<close>

record extern =
  Validate :: "digest \<Rightarrow> bool"
  mapOrder :: "digestMap \<Rightarrow> digestMap"
  FromBytes :: "bytes \<Rightarrow> digest"
  GenerateRandomID :: "nat \<Rightarrow> string"
  Now :: nat
  applyNameOperation :: "string list \<Rightarrow> string list \<Rightarrow> updateNameOperation \<Rightarrow> error + string list"
  MkdirAll_ok :: bool
  Marshal_ok :: bool
  AtomicWriteFile_ok :: bool
  Touch_ok :: bool
  MkdirAll_datadir_ok :: bool
  AtomicWriteFile_blob_ok :: bool
  RemoveAll_ok :: bool

text \<open>
  The file \<^verbatim>\<open>images.json\<close> as \<^verbatim>\<open>Load\<close> tells its states apart: reading fails, the
  file does not exist, it has length zero, \<^verbatim>\<open>json.Unmarshal\<close> fails on it (leaving some
  records in the slice), or it decodes to a list of records.
\<close>

datatype snapshot =
    Unreadable
  | Missing
  | Blank
  | Garbled "Image list"
  | Json "Image list"

record imageStore =
  lockfile_IsReadWrite :: bool
  lockfile_Locked :: bool
  lockfile_touches :: nat
  imagesjson :: snapshot
  datadirs :: "string set"
  blobs :: "string \<times> string \<rightharpoonup> bytes"
  heap :: "ptr \<Rightarrow> Image"
  nextptr :: ptr
  images :: "ptr list"
  idindex :: "string list"
  byid :: "string \<rightharpoonup> ptr"
  byname :: "string \<rightharpoonup> ptr"
  bydigest :: "digest \<rightharpoonup> ptr list"

subsection \<open>Helpers of the package that live outside images.go\<close>

text \<open>
  Modelled from the spec: \<^verbatim>\<open>dedupeNames\<close> (not under src/). The spec keeps
  \<open>NamesHistory\<close> "deduplicated ... most-recent-first" and the source comment says "free
  from any duplicates, whereas the newest entry is the first one": of several equal
  entries the first one stays.
\<close>

fun dedupe_from :: "string list \<Rightarrow> string list \<Rightarrow> string list" where
  "dedupe_from seen [] = []"
| "dedupe_from seen (x # xs) =
     (if x \<in> set seen then dedupe_from seen xs else x # dedupe_from (x # seen) xs)"

definition dedupeNames :: "string list \<Rightarrow> string list" where
  "dedupeNames names = dedupe_from [] names"

text \<open>
  Modelled from the spec: \<^verbatim>\<open>stringSliceWithoutValue\<close> (not under src/), by which a name
  is "stripped" from a record: the slice without the entries equal to the value.
\<close>

definition stringSliceWithoutValue :: "string list \<Rightarrow> string \<Rightarrow> string list" where
  "stringSliceWithoutValue slice v = filter (\<lambda>x. x \<noteq> v) slice"

text \<open>
  Modelled from the spec: the prefix index (package truncindex, not under src/), which
  "resolves an unambiguous truncated ID prefix to its full ID; invalid/duplicate entries
  during (re)build are ignored". It is kept as the list of the IDs it holds.
\<close>

definition truncindex_Add :: "string list \<Rightarrow> string \<Rightarrow> string list" where
  "truncindex_Add idx i = (if i = [] \<or> i \<in> set idx then idx else idx @ [i])"

definition truncindex_Delete :: "string list \<Rightarrow> string \<Rightarrow> string list" where
  "truncindex_Delete idx i = filter (\<lambda>x. x \<noteq> i) idx"

definition NewTruncIndex :: "string list \<Rightarrow> string list" where
  "NewTruncIndex ids = foldl truncindex_Add [] ids"

definition truncindex_Get :: "string list \<Rightarrow> string \<Rightarrow> string option" where
  "truncindex_Get idx s =
     (if s = [] then None
      else case filter (prefix s) idx of [i] \<Rightarrow> Some i | _ \<Rightarrow> None)"

subsection \<open>Copies\<close>

definition copyImage :: "Image \<Rightarrow> Image" where
  "copyImage i =
     \<lparr>ID = ID i, Digest = Digest i, Digests = Digests i, Names = Names i,
      NamesHistory = NamesHistory i, TopLayer = TopLayer i,
      MappedTopLayers = MappedTopLayers i, Metadata = Metadata i,
      BigDataNames = BigDataNames i, BigDataSizes = BigDataSizes i,
      BigDataDigests = BigDataDigests i, Created = Created i, ReadOnly = ReadOnly i,
      Flags = Flags i\<rparr>"

definition copyImageSlice :: "(ptr \<Rightarrow> Image) \<Rightarrow> ptr list \<Rightarrow> Image list" where
  "copyImageSlice h slice = map (\<lambda>p. copyImage (h p)) slice"

subsection \<open>Digest recomputation\<close>

definition ImageDigestManifestBigDataNamePrefix :: string where
  "ImageDigestManifestBigDataNamePrefix = ''manifest''"

definition bigDataNameIsManifest :: "string \<Rightarrow> bool" where
  "bigDataNameIsManifest name = prefix ImageDigestManifestBigDataNamePrefix name"

text \<open>
  The loop of \<^verbatim>\<open>recomputeDigests\<close> over the entries of \<open>BigDataDigests\<close>, in the order
  the iteration visits them; its state is the slice \<open>validDigests\<close> and the set \<open>digests\<close>.
\<close>

fun recomputeDigests_loop ::
  "(digest \<Rightarrow> bool) \<Rightarrow> digestMap \<Rightarrow> digest list \<times> digest set \<Rightarrow> error + digest list \<times> digest set"
where
  "recomputeDigests_loop v [] st = Inr st"
| "recomputeDigests_loop v ((name, d) # es) (validDigests, digests) =
     (if \<not> bigDataNameIsManifest name then recomputeDigests_loop v es (validDigests, digests)
      else if \<not> v d then Inl (ErrInvalidDigest d)
      else if d \<notin> digests
        then recomputeDigests_loop v es (validDigests @ [d], insert d digests)
        else recomputeDigests_loop v es (validDigests, digests))"

definition recomputeDigests :: "extern \<Rightarrow> Image \<Rightarrow> error + Image" where
  "recomputeDigests E i =
     (if Digest i \<noteq> [] \<and> \<not> Validate E (Digest i) then Inl (ErrInvalidDigest (Digest i))
      else
        case recomputeDigests_loop (Validate E) (mapOrder E (BigDataDigests i))
               (if Digest i \<noteq> [] then ([Digest i], {Digest i}) else ([], {})) of
          Inl e \<Rightarrow> Inl e
        | Inr (validDigests, digests) \<Rightarrow>
            Inr (i\<lparr>Digest := (if Digest i = [] \<and> validDigests \<noteq> [] then hd validDigests
                               else Digest i),
                   Digests := validDigests\<rparr>))"

subsection \<open>Lock file and persistence\<close>

definition IsReadWrite :: "imageStore \<Rightarrow> bool" where
  "IsReadWrite r = lockfile_IsReadWrite r"

definition Locked :: "imageStore \<Rightarrow> bool" where
  "Locked r = lockfile_Locked r"

definition Touch :: "extern \<Rightarrow> imageStore \<Rightarrow> error option \<times> imageStore" where
  "Touch E r =
     (if Touch_ok E then (None, r\<lparr>lockfile_touches := Suc (lockfile_touches r)\<rparr>)
      else (Some ErrIO, r))"

text \<open>
  What a record looks like after \<^verbatim>\<open>json.Marshal\<close> and \<^verbatim>\<open>json.Unmarshal\<close>: the fields
  tagged \<^verbatim>\<open>json:"-"\<close> (\<open>Digests\<close>, \<open>ReadOnly\<close>) come back as zero values.
\<close>

definition json_fields :: "Image \<Rightarrow> Image" where
  "json_fields i = i\<lparr>Digests := [], ReadOnly := False\<rparr>"

definition Save :: "extern \<Rightarrow> imageStore \<Rightarrow> error option \<times> imageStore" where
  "Save E r =
     (if \<not> IsReadWrite r then (Some ErrStoreIsReadOnly, r)
      else if \<not> Locked r then (Some ErrNotLockedForWriting, r)
      else if \<not> MkdirAll_ok E then (Some ErrIO, r)
      else if \<not> Marshal_ok E then (Some ErrIO, r)
      else if \<not> AtomicWriteFile_ok E then (Some ErrIO, r)
      else Touch E (r\<lparr>imagesjson := Json (map (\<lambda>p. json_fields (heap r p)) (images r))\<rparr>))"

subsection \<open>Names and index loops\<close>

definition removeName :: "(ptr \<Rightarrow> Image) \<Rightarrow> ptr \<Rightarrow> string \<Rightarrow> (ptr \<Rightarrow> Image)" where
  "removeName h img name =
     h(img := (h img)\<lparr>Names := stringSliceWithoutValue (Names (h img)) name\<rparr>)"

definition addNameToHistory :: "Image \<Rightarrow> string \<Rightarrow> Image" where
  "addNameToHistory i name = i\<lparr>NamesHistory := dedupeNames (name # NamesHistory i)\<rparr>"

text \<open>\<^verbatim>\<open>for _, name := range names { byname[name] = img }\<close>\<close>

fun bind_names :: "ptr \<Rightarrow> string list \<Rightarrow> (string \<rightharpoonup> ptr) \<Rightarrow> (string \<rightharpoonup> ptr)" where
  "bind_names img [] bn = bn"
| "bind_names img (name # rest) bn = bind_names img rest (bn(name \<mapsto> img))"

text \<open>\<^verbatim>\<open>for _, name := range names { delete(byname, name) }\<close>\<close>

fun unbind_names :: "string list \<Rightarrow> (string \<rightharpoonup> ptr) \<Rightarrow> (string \<rightharpoonup> ptr)" where
  "unbind_names [] bn = bn"
| "unbind_names (name # rest) bn = unbind_names rest (bn(name := None))"

text \<open>\<^verbatim>\<open>for _, digest := range digests { list := bydigest[digest]; bydigest[digest] = append(list, img) }\<close>\<close>

fun index_digests :: "ptr \<Rightarrow> digest list \<Rightarrow> (digest \<rightharpoonup> ptr list) \<Rightarrow> (digest \<rightharpoonup> ptr list)" where
  "index_digests img [] bd = bd"
| "index_digests img (d # rest) bd =
     index_digests img rest
       (bd(d \<mapsto> (case bd d of None \<Rightarrow> [] | Some list \<Rightarrow> list) @ [img]))"

definition imageSliceWithoutValue :: "ptr list \<Rightarrow> ptr \<Rightarrow> ptr list" where
  "imageSliceWithoutValue slice v = filter (\<lambda>x. x \<noteq> v) slice"

subsection \<open>Load\<close>

fun alloc :: "(ptr \<Rightarrow> Image) \<Rightarrow> ptr \<Rightarrow> Image list \<Rightarrow> (ptr \<Rightarrow> Image)" where
  "alloc h n [] = h"
| "alloc h n (i # rest) = alloc (h(n := i)) (Suc n) rest"

text \<open>The first inner loop of \<^verbatim>\<open>Load\<close>: strip each name of the record from the record that holds it so far.\<close>

fun Load_conflicts ::
  "(string \<rightharpoonup> ptr) \<Rightarrow> string list \<Rightarrow> (ptr \<Rightarrow> Image) \<times> bool \<Rightarrow> (ptr \<Rightarrow> Image) \<times> bool"
where
  "Load_conflicts names [] st = st"
| "Load_conflicts names (name # rest) (h, shouldSave) =
     (case names name of
        Some conflict \<Rightarrow> Load_conflicts names rest (removeName h conflict name, True)
      | None \<Rightarrow> Load_conflicts names rest (h, shouldSave))"

type_synonym loadState =
  "(ptr \<Rightarrow> Image) \<times> (string \<rightharpoonup> ptr) \<times> string list \<times> (string \<rightharpoonup> ptr) \<times> (digest \<rightharpoonup> ptr list) \<times> bool"

fun Load_loop :: "extern \<Rightarrow> bool \<Rightarrow> ptr list \<Rightarrow> loadState \<Rightarrow> error + loadState" where
  "Load_loop E rw [] st = Inr st"
| "Load_loop E rw (img # rest) (h, ids, idlist, names, digests, shouldSave) =
     (case Load_conflicts names (Names (h img)) (h, shouldSave) of
        (h1, shouldSave1) \<Rightarrow>
          (case recomputeDigests E (h1 img) of
             Inl e \<Rightarrow> Inl e
           | Inr i \<Rightarrow>
               Load_loop E rw rest
                 (h1(img := i\<lparr>ReadOnly := \<not> rw\<rparr>),
                  ids(ID (h img) \<mapsto> img),
                  idlist @ [ID (h img)],
                  bind_names img (Names i) names,
                  index_digests img (Digests i) digests,
                  shouldSave1)))"

definition Load :: "extern \<Rightarrow> imageStore \<Rightarrow> error option \<times> imageStore" where
  "Load E r =
     (case imagesjson r of
        Unreadable \<Rightarrow> (Some ErrIO, r)
      | _ \<Rightarrow>
        let decoded = (case imagesjson r of Garbled l \<Rightarrow> l | Json l \<Rightarrow> l | _ \<Rightarrow> []);
            parsed = (case imagesjson r of Garbled l \<Rightarrow> False | _ \<Rightarrow> True);
            ptrs = [nextptr r ..< nextptr r + length decoded];
            init = (alloc (heap r) (nextptr r) decoded, Map.empty, [], Map.empty, Map.empty, False)
        in case (if parsed then Load_loop E (IsReadWrite r) ptrs init else Inr init) of
             Inl e \<Rightarrow> (Some e, r)
           | Inr (h, ids, idlist, names, digests, shouldSave) \<Rightarrow>
               if shouldSave \<and> (\<not> IsReadWrite r \<or> \<not> Locked r)
               then (Some ErrDuplicateImageNames, r)
               else
                 let r' = r\<lparr>heap := h, nextptr := nextptr r + length decoded, images := ptrs,
                             idindex := NewTruncIndex idlist, byid := ids, byname := names,
                             bydigest := digests\<rparr>
                 in if shouldSave then Save E r' else (None, r'))"

subsection \<open>Lookup\<close>

definition lookup :: "imageStore \<Rightarrow> string \<Rightarrow> ptr option" where
  "lookup r iD =
     (case byid r iD of
        Some img \<Rightarrow> Some img
      | None \<Rightarrow>
        (case byname r iD of
           Some img \<Rightarrow> Some img
         | None \<Rightarrow>
           (case truncindex_Get (idindex r) iD of
              Some longid \<Rightarrow> byid r longid
            | None \<Rightarrow> None)))"

definition Get :: "imageStore \<Rightarrow> string \<Rightarrow> error + Image" where
  "Get r iD =
     (case lookup r iD of Some img \<Rightarrow> Inr (copyImage (heap r img)) | None \<Rightarrow> Inl ErrImageUnknown)"

definition Exists :: "imageStore \<Rightarrow> string \<Rightarrow> bool" where
  "Exists r iD = (lookup r iD \<noteq> None)"

definition ByDigest :: "imageStore \<Rightarrow> digest \<Rightarrow> error + Image list" where
  "ByDigest r d =
     (case bydigest r d of
        Some imgs \<Rightarrow> Inr (copyImageSlice (heap r) imgs)
      | None \<Rightarrow> Inl ErrImageUnknown)"

subsection \<open>Create\<close>

text \<open>
  The loop that draws random IDs until one is free; \<open>k\<close> counts the calls of
  \<^verbatim>\<open>GenerateRandomID\<close> made so far. Nothing bounds the loop, so not returning is \<open>None\<close>.
\<close>

partial_function (option) Create_randomID :: "extern \<Rightarrow> (string \<rightharpoonup> ptr) \<Rightarrow> nat \<Rightarrow> string option"
where
  "Create_randomID E ids k =
     (if ids (GenerateRandomID E k) \<noteq> None then Create_randomID E ids (Suc k)
      else Some (GenerateRandomID E k))"

definition Create ::
  "extern \<Rightarrow> imageStore \<Rightarrow> string \<Rightarrow> string list \<Rightarrow> string \<Rightarrow> string \<Rightarrow> nat \<Rightarrow> digest
     \<Rightarrow> ((Image option \<times> error option) \<times> imageStore) option"
where
  "Create E r iD names layer metadata created searchableDigest =
     (if \<not> IsReadWrite r then Some ((None, Some ErrStoreIsReadOnly), r)
      else
        case (if iD = [] then Create_randomID E (byid r) 0 else Some iD) of
          None \<Rightarrow> None
        | Some iD \<Rightarrow>
            if byid r iD \<noteq> None then Some ((None, Some ErrDuplicateID), r)
            else
              let names = dedupeNames names in
              case find (\<lambda>name. byname r name \<noteq> None) names of
                Some name \<Rightarrow> Some ((None, Some ErrDuplicateName), r)
              | None \<Rightarrow>
                  let created = (if created = 0 then Now E else created) in
                  case recomputeDigests E
                         \<lparr>ID = iD, Digest = searchableDigest, Digests = [], Names = names,
                          NamesHistory = [], TopLayer = layer, MappedTopLayers = [],
                          Metadata = metadata, BigDataNames = [], BigDataSizes = Map.empty,
                          BigDataDigests = [], Created = created, ReadOnly = False,
                          Flags = Map.empty\<rparr> of
                    Inl e \<Rightarrow> Some ((None, Some e), r)
                  | Inr i \<Rightarrow>
                      let img = nextptr r;
                          r1 = r\<lparr>heap := (heap r)(img := i),
                                 nextptr := Suc img,
                                 images := images r @ [img],
                                 idindex := truncindex_Add (idindex r) iD,
                                 byid := (byid r)(iD \<mapsto> img),
                                 byname := bind_names img names (byname r),
                                 bydigest := index_digests img (Digests i) (bydigest r)\<rparr>
                      in case Save E r1 of
                           (err, r2) \<Rightarrow> Some ((Some (copyImage (heap r2 img)), err), r2))"

subsection \<open>updateNames\<close>

fun updateNames_loop ::
  "ptr \<Rightarrow> string list \<Rightarrow> (ptr \<Rightarrow> Image) \<times> (string \<rightharpoonup> ptr) \<Rightarrow> (ptr \<Rightarrow> Image) \<times> (string \<rightharpoonup> ptr)"
where
  "updateNames_loop img [] st = st"
| "updateNames_loop img (name # rest) (h, bn) =
     (let h1 = (case bn name of Some otherImage \<Rightarrow> removeName h otherImage name | None \<Rightarrow> h)
      in updateNames_loop img rest
           (h1(img := addNameToHistory (h1 img) name), bn(name \<mapsto> img)))"

definition updateNames ::
  "extern \<Rightarrow> imageStore \<Rightarrow> string \<Rightarrow> string list \<Rightarrow> updateNameOperation \<Rightarrow> error option \<times> imageStore"
where
  "updateNames E r iD names op =
     (if \<not> IsReadWrite r then (Some ErrStoreIsReadOnly, r)
      else
        case lookup r iD of
          None \<Rightarrow> (Some ErrImageUnknown, r)
        | Some img \<Rightarrow>
            let oldNames = Names (heap r img) in
            case applyNameOperation E oldNames names op of
              Inl e \<Rightarrow> (Some e, r)
            | Inr names \<Rightarrow>
                (case updateNames_loop img names (heap r, unbind_names oldNames (byname r)) of
                   (h, bn) \<Rightarrow>
                     Save E (r\<lparr>heap := h(img := (h img)\<lparr>Names := names\<rparr>), byname := bn\<rparr>)))"

subsection \<open>Delete\<close>

text \<open>\<^verbatim>\<open>for i, candidate := range r.images { if candidate.ID == id { toDeleteIndex = i } }\<close>\<close>

fun Delete_scan :: "(ptr \<Rightarrow> Image) \<Rightarrow> string \<Rightarrow> ptr list \<Rightarrow> nat \<Rightarrow> nat option \<Rightarrow> nat option" where
  "Delete_scan h iD [] i toDeleteIndex = toDeleteIndex"
| "Delete_scan h iD (candidate # rest) i toDeleteIndex =
     Delete_scan h iD rest (Suc i) (if ID (h candidate) = iD then Some i else toDeleteIndex)"

fun Delete_digests :: "ptr \<Rightarrow> digest list \<Rightarrow> (digest \<rightharpoonup> ptr list) \<Rightarrow> (digest \<rightharpoonup> ptr list)" where
  "Delete_digests img [] bd = bd"
| "Delete_digests img (d # rest) bd =
     (let prunedList = imageSliceWithoutValue (case bd d of None \<Rightarrow> [] | Some list \<Rightarrow> list) img
      in if prunedList = [] then Delete_digests img rest (bd(d := None))
         else Delete_digests img rest (bd(d \<mapsto> prunedList)))"

text \<open>
  \<^verbatim>\<open>os.RemoveAll(r.datadir(id))\<close>, where \<^verbatim>\<open>datadir(id)\<close> is \<^verbatim>\<open>filepath.Join(r.dir, id)\<close>:
  for an ID that is a plain file name it removes the blob directory of the image; for the
  empty ID the path is the store directory itself, and everything in it goes; for the ID
  \<open>images.json\<close> the path is that of the snapshot. An ID with a path separator or a dot
  segment names yet another path; the model has no component for those.
\<close>

definition RemoveAll_datadir :: "string \<Rightarrow> imageStore \<Rightarrow> imageStore" where
  "RemoveAll_datadir iD r =
     r\<lparr>imagesjson := (if iD = [] \<or> iD = ''images.json'' then Missing else imagesjson r),
       datadirs := (if iD = [] then {} else datadirs r - {iD}),
       blobs := (\<lambda>(i, key). if iD = [] \<or> i = iD then None else blobs r (i, key))\<rparr>"

definition Delete :: "extern \<Rightarrow> imageStore \<Rightarrow> string \<Rightarrow> error option \<times> imageStore" where
  "Delete E r iD =
     (if \<not> IsReadWrite r then (Some ErrStoreIsReadOnly, r)
      else
        case lookup r iD of
          None \<Rightarrow> (Some ErrImageUnknown, r)
        | Some img \<Rightarrow>
            let iD = ID (heap r img);
                toDeleteIndex = Delete_scan (heap r) iD (images r) 0 None;
                r1 = r\<lparr>byid := (byid r)(iD := None),
                       idindex := truncindex_Delete (idindex r) iD,
                       byname := unbind_names (Names (heap r img)) (byname r),
                       bydigest := Delete_digests img (Digests (heap r img)) (bydigest r),
                       images :=
                         (case toDeleteIndex of
                            None \<Rightarrow> images r
                          | Some i \<Rightarrow>
                              if i = length (images r) - 1
                              then take (length (images r) - 1) (images r)
                              else take i (images r) @ drop (i + 1) (images r))\<rparr>
            in case Save E r1 of
                 (Some e, r2) \<Rightarrow> (Some e, r2)
               | (None, r2) \<Rightarrow>
                   if \<not> RemoveAll_ok E then (Some ErrIO, r2)
                   else (None, RemoveAll_datadir iD r2))"

subsection \<open>SetBigData\<close>

text \<open>The loop that takes the image out of the buckets of its old digests.\<close>

fun SetBigData_prune :: "ptr \<Rightarrow> digest list \<Rightarrow> (digest \<rightharpoonup> ptr list) \<Rightarrow> (digest \<rightharpoonup> ptr list)" where
  "SetBigData_prune img [] bd = bd"
| "SetBigData_prune img (oldDigest # rest) bd =
     (case bd oldDigest of
        Some list \<Rightarrow>
          (let prunedList = imageSliceWithoutValue list img
           in if prunedList = [] then SetBigData_prune img rest (bd(oldDigest := None))
              else SetBigData_prune img rest (bd(oldDigest \<mapsto> prunedList)))
      | None \<Rightarrow> SetBigData_prune img rest bd)"

text \<open>The loop that adds the image to the bucket of each new digest, unless it is there.\<close>

fun SetBigData_index :: "ptr \<Rightarrow> digest list \<Rightarrow> (digest \<rightharpoonup> ptr list) \<Rightarrow> (digest \<rightharpoonup> ptr list)" where
  "SetBigData_index img [] bd = bd"
| "SetBigData_index img (newDigest # rest) bd =
     (let list = (case bd newDigest of None \<Rightarrow> [] | Some l \<Rightarrow> l)
      in if length list = length (imageSliceWithoutValue list img)
         then SetBigData_index img rest (bd(newDigest \<mapsto> list @ [img]))
         else SetBigData_index img rest bd)"

text \<open>
  The digest of the new item: by the caller's function for a manifest (an error when there
  is none), the canonical digest of the bytes otherwise.
\<close>

definition SetBigData_digest ::
  "extern \<Rightarrow> string \<Rightarrow> bytes \<Rightarrow> (bytes \<Rightarrow> error + digest) option \<Rightarrow> error + digest"
where
  "SetBigData_digest E key data digestManifest =
     (if bigDataNameIsManifest key
      then (case digestManifest of
              None \<Rightarrow> Inl ErrDigestUnknown
            | Some f \<Rightarrow> f data)
      else Inr (FromBytes E data))"

text \<open>
  The block that refreshes the cached size and digest of the key and appends the key to
  the name list when it is new: the record it leaves, and the flag \<open>save\<close> it computes.
\<close>

definition SetBigData_cache :: "Image \<Rightarrow> string \<Rightarrow> bytes \<Rightarrow> digest \<Rightarrow> Image" where
  "SetBigData_cache i0 key data newDigest =
     (let addName = (key \<notin> set (BigDataNames i0))
      in i0\<lparr>BigDataSizes := (BigDataSizes i0)(key \<mapsto> int (length data)),
             BigDataDigests := AList.update key newDigest (BigDataDigests i0),
             BigDataNames := (if addName then BigDataNames i0 @ [key] else BigDataNames i0)\<rparr>)"

definition SetBigData_save :: "Image \<Rightarrow> string \<Rightarrow> bytes \<Rightarrow> digest \<Rightarrow> bool" where
  "SetBigData_save i0 key data newDigest =
     (let sizeOk = (BigDataSizes i0 key \<noteq> None);
          oldSize = (case BigDataSizes i0 key of None \<Rightarrow> 0 | Some n \<Rightarrow> n);
          digestOk = (map_of (BigDataDigests i0) key \<noteq> None);
          oldDigest = (case map_of (BigDataDigests i0) key of None \<Rightarrow> [] | Some d \<Rightarrow> d);
          addName = (key \<notin> set (BigDataNames i0))
      in \<not> sizeOk \<or> oldSize \<noteq> int (length data) \<or> \<not> digestOk \<or> oldDigest \<noteq> newDigest
         \<or> addName)"

definition SetBigData ::
  "extern \<Rightarrow> imageStore \<Rightarrow> string \<Rightarrow> string \<Rightarrow> bytes \<Rightarrow> (bytes \<Rightarrow> error + digest) option
     \<Rightarrow> error option \<times> imageStore"
where
  "SetBigData E r iD key data digestManifest =
     (if key = [] then (Some ErrInvalidBigDataName, r)
      else if \<not> IsReadWrite r then (Some ErrStoreIsReadOnly, r)
      else
        case lookup r iD of
          None \<Rightarrow> (Some ErrImageUnknown, r)
        | Some img \<Rightarrow>
            if \<not> MkdirAll_datadir_ok E then (Some ErrIO, r)
            else
              let i0 = heap r img;
                  r1 = r\<lparr>datadirs := insert (ID i0) (datadirs r)\<rparr>
              in
              case SetBigData_digest E key data digestManifest of
                Inl e \<Rightarrow> (Some e, r1)
              | Inr newDigest \<Rightarrow>
                  if \<not> AtomicWriteFile_blob_ok E then (Some ErrIO, r1)
                  else
                    let save = SetBigData_save i0 key data newDigest;
                        i1 = SetBigData_cache i0 key data newDigest;
                        r2 = r\<lparr>datadirs := insert (ID i0) (datadirs r),
                               blobs := (blobs r)((ID i0, key) \<mapsto> data),
                               heap := (heap r)(img := i1),
                               bydigest := SetBigData_prune img (Digests i1) (bydigest r)\<rparr>
                    in case recomputeDigests E i1 of
                         Inl e \<Rightarrow> (Some e, r2)
                       | Inr i2 \<Rightarrow>
                           let r3 = r2\<lparr>heap := (heap r)(img := i2),
                                       bydigest := SetBigData_index img (Digests i2) (bydigest r2)\<rparr>
                           in if save then Save E r3 else (None, r3))"

subsection \<open>What loading does to names, in the words of the spec\<close>

text \<open>
  "If two records claim the same name, the later one in the ordered list wins and the
  earlier one has that name stripped": the names each record of a list keeps are those
  that no later record claims.
\<close>

fun names_after_load :: "Image list \<Rightarrow> string list list" where
  "names_after_load [] = []"
| "names_after_load (x # xs) =
     filter (\<lambda>n. \<forall>y\<in>set xs. n \<notin> set (Names y)) (Names x) # names_after_load xs"

text \<open>Two records of the list claim the same name.\<close>

fun name_conflict :: "Image list \<Rightarrow> bool" where
  "name_conflict [] = False"
| "name_conflict (x # xs) =
     ((\<exists>y\<in>set xs. set (Names x) \<inter> set (Names y) \<noteq> {}) \<or> name_conflict xs)"

subsection \<open>Concrete inputs for the examples\<close>

text \<open>The zero value \<^verbatim>\<open>Image{}\<close>.\<close>

definition zeroImage :: Image where
  "zeroImage =
     \<lparr>ID = [], Digest = [], Digests = [], Names = [], NamesHistory = [], TopLayer = [],
      MappedTopLayers = [], Metadata = [], BigDataNames = [], BigDataSizes = Map.empty,
      BigDataDigests = [], Created = 0, ReadOnly = False, Flags = Map.empty\<rparr>"

text \<open>
  An environment in which every system call succeeds, every string that starts with sha256: passes as a
  digest, and a map is visited in the order of its association list.
\<close>

definition ex_extern :: extern where
  "ex_extern =
     \<lparr>Validate = (\<lambda>d. prefix ''sha256:'' d), mapOrder = (\<lambda>m. m), FromBytes = (\<lambda>b. ''raw''),
      GenerateRandomID = (\<lambda>k. ''rnd''), Now = 1,
      applyNameOperation = (\<lambda>old new op. Inr new),
      MkdirAll_ok = True, Marshal_ok = True, AtomicWriteFile_ok = True, Touch_ok = True,
      MkdirAll_datadir_ok = True, AtomicWriteFile_blob_ok = True, RemoveAll_ok = True\<rparr>"

definition ex_two_manifests :: Image where
  "ex_two_manifests =
     zeroImage\<lparr>BigDataDigests := [(''manifest'', ''sha256:1''), (''manifest-arch'', ''sha256:2'')]\<rparr>"

text \<open>
  The store literal of \<^verbatim>\<open>newImageStore\<close> before its first \<^verbatim>\<open>Load\<close>, in a session
  that may write and holds the lock for writing.
\<close>

definition emptyStore :: imageStore where
  "emptyStore =
     \<lparr>lockfile_IsReadWrite = True, lockfile_Locked = True, lockfile_touches = 0,
      imagesjson = Missing, datadirs = {}, blobs = Map.empty, heap = (\<lambda>p. zeroImage),
      nextptr = 0, images = [], idindex = [], byid = Map.empty, byname = Map.empty,
      bydigest = Map.empty\<rparr>"

text \<open>Two records that claim the same name; in the second list one of them has a malformed digest.\<close>

definition ex_same_name :: "Image list" where
  "ex_same_name =
     [zeroImage\<lparr>ID := ''a'', Names := [''n'']\<rparr>, zeroImage\<lparr>ID := ''b'', Names := [''n'']\<rparr>]"

definition ex_same_name_bad_digest :: "Image list" where
  "ex_same_name_bad_digest =
     [zeroImage\<lparr>ID := ''a'', Names := [''n'']\<rparr>,
      zeroImage\<lparr>ID := ''b'', Names := [''n''], Digest := ''bogus''\<rparr>]"

text \<open>
  A store that holds one image, \<open>a\<close>, named \<open>n\<close>: what \<^verbatim>\<open>Load\<close> builds from the
  snapshot with that one record.
\<close>

definition ex_image_a :: Image where
  "ex_image_a = zeroImage\<lparr>ID := ''a'', Names := [''n'']\<rparr>"

definition ex_one_image :: imageStore where
  "ex_one_image =
     emptyStore\<lparr>imagesjson := Json [ex_image_a], heap := (\<lambda>p. zeroImage)(0 := ex_image_a),
       nextptr := 1, images := [0], idindex := [''a''], byid := [''a'' \<mapsto> 0],
       byname := [''n'' \<mapsto> 0]\<rparr>"

text \<open>Every bucket of the by-digest index holds at least one image.\<close>

definition buckets_nonempty :: "(digest \<rightharpoonup> ptr list) \<Rightarrow> bool" where
  "buckets_nonempty bd = (\<forall>d l. bd d = Some l \<longrightarrow> l \<noteq> [])"

text \<open>
  A store that holds one image with an explicit digest and two manifests: what \<^verbatim>\<open>Load\<close>
  builds from the snapshot with that one record when the iteration over the map visits
  \<open>manifest-a\<close> first.
\<close>

definition ex_image_m :: Image where
  "ex_image_m =
     zeroImage\<lparr>ID := ''m'', Digest := ''sha256:0'',
       Digests := [''sha256:0'', ''sha256:1'', ''sha256:2''],
       BigDataNames := [''manifest-a'', ''manifest-b''],
       BigDataSizes := [''manifest-a'' \<mapsto> 1, ''manifest-b'' \<mapsto> 1],
       BigDataDigests := [(''manifest-a'', ''sha256:1''), (''manifest-b'', ''sha256:2'')]\<rparr>"

definition ex_manifests_store :: imageStore where
  "ex_manifests_store =
     emptyStore\<lparr>imagesjson := Json [json_fields ex_image_m],
       heap := (\<lambda>p. zeroImage)(0 := ex_image_m), nextptr := 1, images := [0],
       idindex := [''m''], byid := [''m'' \<mapsto> 0],
       bydigest := [''sha256:0'' \<mapsto> [0], ''sha256:1'' \<mapsto> [0], ''sha256:2'' \<mapsto> [0]]\<rparr>"

text \<open>
  A store with two images, \<open>a\<close> and \<open>b\<close>, in which \<open>b\<close> carries the name \<open>a\<close>: what
  \<^verbatim>\<open>Load\<close> builds from the snapshot with these two records (and what creating \<open>a\<close> and
  then \<open>b\<close> named \<open>a\<close> leaves in the indices).
\<close>

definition ex_name_is_id :: imageStore where
  "ex_name_is_id =
     emptyStore\<lparr>imagesjson := Json [zeroImage\<lparr>ID := ''a''\<rparr>, zeroImage\<lparr>ID := ''b'', Names := [''a'']\<rparr>],
       heap := (\<lambda>p. zeroImage)(0 := zeroImage\<lparr>ID := ''a''\<rparr>,
                                  1 := zeroImage\<lparr>ID := ''b'', Names := [''a'']\<rparr>),
       nextptr := 2, images := [0, 1], idindex := [''a'', ''b''],
       byid := [''a'' \<mapsto> 0, ''b'' \<mapsto> 1], byname := [''a'' \<mapsto> 1]\<rparr>"

text \<open>
  A store with two images: \<open>a\<close>, named \<open>n\<close>, and \<open>b\<close>, without names (what \<^verbatim>\<open>Load\<close>
  builds from the snapshot with these two records).
\<close>

definition ex_two_images :: imageStore where
  "ex_two_images =
     emptyStore\<lparr>imagesjson := Json [ex_image_a, zeroImage\<lparr>ID := ''b''\<rparr>],
       heap := (\<lambda>p. zeroImage)(0 := ex_image_a, 1 := zeroImage\<lparr>ID := ''b''\<rparr>),
       nextptr := 2, images := [0, 1], idindex := [''a'', ''b''],
       byid := [''a'' \<mapsto> 0, ''b'' \<mapsto> 1], byname := [''n'' \<mapsto> 0]\<rparr>"

text \<open>
  The invariant of the spec on the digests of a record: "every digest in \<open>Digests\<close> is
  syntactically valid; \<open>Digests\<close> contains no duplicates; \<open>Digest\<close>, if non-empty, is always
  present in \<open>Digests\<close>", where "it is always the first element".
\<close>

definition digest_invariant :: "extern \<Rightarrow> Image \<Rightarrow> bool" where
  "digest_invariant E i =
     (distinct (Digests i) \<and> (\<forall>d\<in>set (Digests i). Validate E d)
      \<and> (Digest i \<noteq> [] \<longrightarrow> Digest i \<in> set (Digests i) \<and> hd (Digests i) = Digest i))"

text \<open>
  A store whose snapshot file is not empty and on which \<^verbatim>\<open>json.Unmarshal\<close> fails after
  it has decoded one record, which carries a digest.
\<close>

definition ex_unparseable :: imageStore where
  "ex_unparseable =
     emptyStore\<lparr>imagesjson := Garbled [zeroImage\<lparr>ID := ''a'', Digest := ''sha256:0''\<rparr>]\<rparr>"

text \<open>
  The \<open>Digests\<close> of a record are up to date: they are what a recomputation from its
  \<open>Digest\<close> and its \<open>BigDataDigests\<close> yields under some order of iteration.
\<close>

definition manifest_digests :: "digestMap \<Rightarrow> digest list" where
  "manifest_digests m = map snd (filter (\<lambda>(n, d). bigDataNameIsManifest n) m)"

definition digests_current :: "extern \<Rightarrow> Image \<Rightarrow> bool" where
  "digests_current E i =
     ((Digest i = [] \<or> Validate E (Digest i))
      \<and> list_all (Validate E) (manifest_digests (BigDataDigests i))
      \<and> distinct (Digests i)
      \<and> set (Digests i) =
          set ((if Digest i = [] then [] else [Digest i]) @ manifest_digests (BigDataDigests i))
      \<and> (if Digest i = [] then Digests i = [] else hd (Digests i) = Digest i))"

section \<open>Properties\<close>

subsection \<open>Digest recomputation\<close>

lemma mset_two: "mset xs = {#a, b#} \<Longrightarrow> xs = [a, b] \<or> xs = [b, a]"
proof -
  assume h: "mset xs = {#a, b#}"
  then have "length xs = 2"
    by (metis size_mset size_add_mset size_empty One_nat_def Suc_1)
  then obtain x y where xs: "xs = [x, y]"
    by (metis One_nat_def Suc_1 length_0_conv length_Suc_conv)
  with h show ?thesis by (auto simp: add_eq_conv_diff)
qed

lemma manifest_is_manifest: "bigDataNameIsManifest ''manifest''"
  by (simp add: bigDataNameIsManifest_def ImageDigestManifestBigDataNamePrefix_def)

lemma manifest_arch_is_manifest: "bigDataNameIsManifest ''manifest-arch''"
  by (simp add: bigDataNameIsManifest_def ImageDigestManifestBigDataNamePrefix_def)

text \<open>
  Claim C1, as amended. For an image with no explicit \<open>Digest\<close> whose big-data digest
  cache holds exactly the entries \<open>manifest \<mapsto> D1\<close> and \<open>manifest-arch \<mapsto> D2\<close> (both
  valid, distinct), recomputation succeeds; \<open>Digests\<close> lists \<open>D1\<close> and \<open>D2\<close> once each, in
  the order in which the iteration over the map visits them, and \<open>Digest\<close> becomes the
  first element of that list. The result is \<open>[D1, D2]\<close> with \<open>Digest = D1\<close> when
  \<open>manifest\<close> is visited first, and \<open>[D2, D1]\<close> with \<open>Digest = D2\<close> otherwise.
\<close>

theorem C1_recomputeDigests_two_manifests:
  assumes "Digest i = []"
    and "mset (BigDataDigests i) = {#(''manifest'', D1), (''manifest-arch'', D2)#}"
    and "mset (mapOrder E (BigDataDigests i)) = mset (BigDataDigests i)"
    and "Validate E D1" and "Validate E D2" and "D1 \<noteq> D2"
  shows "\<exists>ds. recomputeDigests E i = Inr (i\<lparr>Digest := hd ds, Digests := ds\<rparr>)
            \<and> ds = map snd (mapOrder E (BigDataDigests i))
            \<and> (ds = [D1, D2] \<or> ds = [D2, D1])"
proof -
  from assms(2,3)
  have "mapOrder E (BigDataDigests i) = [(''manifest'', D1), (''manifest-arch'', D2)]
      \<or> mapOrder E (BigDataDigests i) = [(''manifest-arch'', D2), (''manifest'', D1)]"
    using mset_two by metis
  then show ?thesis
    using assms(1,4,5,6)
    by (auto simp: recomputeDigests_def manifest_is_manifest manifest_arch_is_manifest)
qed

theorem C1_recomputeDigests_two_manifests_witness:
  "Digest ex_two_manifests = []
   \<and> mset (BigDataDigests ex_two_manifests) = {#(''manifest'', ''sha256:1''), (''manifest-arch'', ''sha256:2'')#}
   \<and> Validate ex_extern ''sha256:1'' \<and> Validate ex_extern ''sha256:2''
   \<and> recomputeDigests ex_extern ex_two_manifests
       = Inr (ex_two_manifests\<lparr>Digest := ''sha256:1'', Digests := [''sha256:1'', ''sha256:2'']\<rparr>)"
  using C1_recomputeDigests_two_manifests [of ex_two_manifests "''sha256:1''" "''sha256:2''" ex_extern]
  by (simp add: ex_two_manifests_def zeroImage_def ex_extern_def)

text \<open>
  The claim as stated fails when the iteration visits \<open>manifest-arch\<close> before \<open>manifest\<close>:
  the list comes out as \<open>[D2, D1]\<close> and the canonical digest is \<open>D2\<close>.
\<close>

theorem C1_order_counterexample:
  "recomputeDigests (ex_extern\<lparr>mapOrder := rev\<rparr>) ex_two_manifests
     = Inr (ex_two_manifests\<lparr>Digest := ''sha256:2'', Digests := [''sha256:2'', ''sha256:1'']\<rparr>)"
  by (simp add: recomputeDigests_def ex_two_manifests_def zeroImage_def ex_extern_def
        manifest_is_manifest manifest_arch_is_manifest)

subsection \<open>Load: the loop over the decoded records\<close>

lemma names_after_load_snoc:
  "names_after_load (xs @ [x]) =
     map (filter (\<lambda>n. n \<notin> set (Names x))) (names_after_load xs) @ [Names x]"
  by (induction xs) (auto intro: filter_cong)

lemma name_conflict_snoc:
  "name_conflict (xs @ [x]) =
     (name_conflict xs \<or> (\<exists>y\<in>set xs. set (Names y) \<inter> set (Names x) \<noteq> {}))"
  by (induction xs) auto

lemma length_names_after_load [simp]: "length (names_after_load xs) = length xs"
  by (induction xs) auto

lemma names_after_load_union:
  "(\<Union>ns\<in>set (names_after_load xs). set ns) = (\<Union>x\<in>set xs. set (Names x))"
  by (induction xs) auto


lemma all_later_Cons:
  "(\<forall>m. Suc k < m \<and> m < Suc (length xs) \<longrightarrow> P ((x # xs) ! m))
     \<longleftrightarrow> (\<forall>m. k < m \<and> m < length xs \<longrightarrow> P (xs ! m))"
proof
  assume a: "\<forall>m. Suc k < m \<and> m < Suc (length xs) \<longrightarrow> P ((x # xs) ! m)"
  show "\<forall>m. k < m \<and> m < length xs \<longrightarrow> P (xs ! m)"
  proof (intro allI impI)
    fix m assume "k < m \<and> m < length xs"
    then have "Suc k < Suc m \<and> Suc m < Suc (length xs)" by simp
    with a have "P ((x # xs) ! Suc m)" by blast
    then show "P (xs ! m)" by simp
  qed
next
  assume a: "\<forall>m. k < m \<and> m < length xs \<longrightarrow> P (xs ! m)"
  show "\<forall>m. Suc k < m \<and> m < Suc (length xs) \<longrightarrow> P ((x # xs) ! m)"
  proof (intro allI impI)
    fix m assume m: "Suc k < m \<and> m < Suc (length xs)"
    then obtain j where j: "m = Suc j" by (cases m) auto
    with m have "k < j \<and> j < length xs" by simp
    with a have "P (xs ! j)" by blast
    with j show "P ((x # xs) ! m)" by simp
  qed
qed

lemma all_set_later:
  "(\<forall>y\<in>set xs. P y) \<longleftrightarrow> (\<forall>m. 0 < m \<and> m < Suc (length xs) \<longrightarrow> P ((x # xs) ! m))"
proof
  assume a: "\<forall>y\<in>set xs. P y"
  show "\<forall>m. 0 < m \<and> m < Suc (length xs) \<longrightarrow> P ((x # xs) ! m)"
  proof (intro allI impI)
    fix m assume m: "0 < m \<and> m < Suc (length xs)"
    then obtain j where j: "m = Suc j" by (cases m) auto
    with m have "j < length xs" by simp
    then have "xs ! j \<in> set xs" by simp
    with a j show "P ((x # xs) ! m)" by simp
  qed
next
  assume a: "\<forall>m. 0 < m \<and> m < Suc (length xs) \<longrightarrow> P ((x # xs) ! m)"
  show "\<forall>y\<in>set xs. P y"
  proof
    fix y assume "y \<in> set xs"
    then obtain j where j: "j < length xs" "xs ! j = y" by (auto simp: in_set_conv_nth)
    then have "0 < Suc j \<and> Suc j < Suc (length xs)" by simp
    with a have "P ((x # xs) ! Suc j)" by blast
    with j show "P y" by simp
  qed
qed

lemma names_after_load_nth:
  "k < length xs \<Longrightarrow>
   names_after_load xs ! k =
     filter (\<lambda>n. \<forall>m. k < m \<and> m < length xs \<longrightarrow> n \<notin> set (Names (xs ! m))) (Names (xs ! k))"
proof (induction xs arbitrary: k)
  case Nil then show ?case by simp
next
  case (Cons x xs)
  show ?case
  proof (cases k)
    case 0
    then show ?thesis
      using all_set_later[of xs "\<lambda>y. n \<notin> set (Names y)" x for n] by simp
  next
    case (Suc j)
    with Cons.prems have j: "j < length xs" by simp
    show ?thesis
      using Suc Cons.IH[OF j] all_later_Cons[of j xs "\<lambda>y. n \<notin> set (Names y)" x for n] by simp
  qed
qed

lemma Load_loop_append:
  "Load_loop E rw (ps @ qs) st =
     (case Load_loop E rw ps st of Inl e \<Rightarrow> Inl e | Inr st' \<Rightarrow> Load_loop E rw qs st')"
proof (induction ps arbitrary: st)
  case Nil then show ?case by simp
next
  case (Cons p ps)
  obtain h ids idlist names digests ss where st: "st = (h, ids, idlist, names, digests, ss)"
    by (cases st)
  show ?case unfolding st by (simp add: Cons.IH split: prod.splits sum.splits)
qed

lemma Load_conflicts_heap:
  "fst (Load_conflicts names ns (h, ss)) =
     (\<lambda>p. (h p)\<lparr>Names := filter (\<lambda>n. \<not> (n \<in> set ns \<and> names n = Some p)) (Names (h p))\<rparr>)"
proof (induction ns arbitrary: h ss)
  case Nil then show ?case by simp
next
  case (Cons n ns)
  show ?case
  proof (cases "names n")
    case None
    have "filter (\<lambda>a. \<not> (a \<in> set (n # ns) \<and> names a = Some p)) xs
        = filter (\<lambda>a. \<not> (a \<in> set ns \<and> names a = Some p)) xs" for p xs
      using None by (intro filter_cong) auto
    then show ?thesis using None by (simp add: Cons.IH)
  next
    case (Some c)
    have "filter (\<lambda>a. \<not> (a \<in> set ns \<and> names a = Some p)) (filter (\<lambda>a. a \<noteq> n) xs)
        = filter (\<lambda>a. \<not> (a \<in> set (n # ns) \<and> names a = Some p)) xs" if "p = c" for p xs
      using Some that by (simp del: set_simps) (intro filter_cong, auto)
    moreover have "filter (\<lambda>a. \<not> (a \<in> set ns \<and> names a = Some p)) xs
        = filter (\<lambda>a. \<not> (a \<in> set (n # ns) \<and> names a = Some p)) xs" if "p \<noteq> c" for p xs
      using Some that by (intro filter_cong) auto
    ultimately show ?thesis using Some
      by (auto simp add: Cons.IH removeName_def stringSliceWithoutValue_def simp del: set_simps intro!: ext)
  qed
qed

lemma Load_conflicts_flag:
  "snd (Load_conflicts names ns (h, ss)) = (ss \<or> (\<exists>n\<in>set ns. names n \<noteq> None))"
  by (induction ns arbitrary: h ss) (auto split: option.splits)

lemma bind_names_eq: "bind_names x ns bn = (\<lambda>n. if n \<in> set ns then Some x else bn n)"
  by (induction ns arbitrary: bn) (auto intro!: ext)

lemma unbind_names_eq: "unbind_names ns bn = (\<lambda>n. if n \<in> set ns then None else bn n)"
  by (induction ns arbitrary: bn) (auto intro!: ext)

lemma recomputeDigests_fields:
  "recomputeDigests E i = Inr y \<Longrightarrow> y = i\<lparr>Digest := Digest y, Digests := Digests y\<rparr>"
  by (auto simp: recomputeDigests_def split: if_splits sum.splits prod.splits)

lemma recomputeDigests_Names_update:
  "recomputeDigests E (i\<lparr>Names := ns\<rparr>) = map_sum id (\<lambda>y. y\<lparr>Names := ns\<rparr>) (recomputeDigests E i)"
  by (auto simp: recomputeDigests_def split: if_splits sum.splits prod.splits)

lemma Load_loop_single:
  "Load_loop E rw [x] (h, ids, idlist, names, digests, ss) = Inr st \<Longrightarrow>
   \<exists>y. recomputeDigests E (fst (Load_conflicts names (Names (h x)) (h, ss)) x) = Inr y \<and>
     st = ((fst (Load_conflicts names (Names (h x)) (h, ss)))(x := y\<lparr>ReadOnly := \<not> rw\<rparr>),
           ids(ID (h x) \<mapsto> x), idlist @ [ID (h x)], bind_names x (Names y) names,
           index_digests x (Digests y) digests,
           snd (Load_conflicts names (Names (h x)) (h, ss)))"
  by (auto split: prod.splits sum.splits)

lemma Load_loop_inv:
  "distinct ps \<Longrightarrow>
   Load_loop E rw ps (h0, Map.empty, [], Map.empty, Map.empty, False)
     = Inr (h, ids, idlist, names, digests, ss) \<Longrightarrow>
   (\<forall>p. p \<notin> set ps \<longrightarrow> h p = h0 p) \<and>
   map (\<lambda>p. Names (h p)) ps = names_after_load (map h0 ps) \<and>
   (\<forall>n p. names n = Some p \<longleftrightarrow> (p \<in> set ps \<and> n \<in> set (Names (h p)))) \<and>
   (\<forall>p\<in>set ps. \<exists>y. recomputeDigests E (h0 p) = Inr y \<and>
        h p = y\<lparr>Names := Names (h p), ReadOnly := \<not> rw\<rparr>) \<and>
   idlist = map (\<lambda>p. ID (h0 p)) ps \<and>
   ids = map_of (rev (map (\<lambda>p. (ID (h0 p), p)) ps)) \<and>
   ss = name_conflict (map h0 ps)"
proof (induction ps arbitrary: h ids idlist names digests ss rule: rev_induct)
  case Nil
  then show ?case by auto
next
  case (snoc x ps)
  let ?init = "(h0, Map.empty, [], Map.empty, Map.empty, False)"
  from snoc.prems(2) obtain st1 where
    st1: "Load_loop E rw ps ?init = Inr st1" and
    fin: "Load_loop E rw [x] st1 = Inr (h, ids, idlist, names, digests, ss)"
    by (auto simp: Load_loop_append split: sum.splits)
  obtain h1 ids1 idlist1 names1 digests1 ss1 where
    st1_eq: "st1 = (h1, ids1, idlist1, names1, digests1, ss1)" by (cases st1)
  from snoc.prems(1) have dps: "distinct ps" and xps: "x \<notin> set ps" by auto
  note IH = snoc.IH[OF dps st1[unfolded st1_eq]]
  from IH have A1: "\<And>p. p \<notin> set ps \<Longrightarrow> h1 p = h0 p" by blast
  from IH have B1: "map (\<lambda>p. Names (h1 p)) ps = names_after_load (map h0 ps)" by blast
  from IH have C1: "\<And>n p. names1 n = Some p \<longleftrightarrow> (p \<in> set ps \<and> n \<in> set (Names (h1 p)))" by blast
  from IH have D1: "\<And>p. p \<in> set ps \<Longrightarrow> \<exists>y. recomputeDigests E (h0 p) = Inr y \<and>
        h1 p = y\<lparr>Names := Names (h1 p), ReadOnly := \<not> rw\<rparr>" by blast
  from IH have E1: "idlist1 = map (\<lambda>p. ID (h0 p)) ps" by blast
  from IH have F1: "ids1 = map_of (rev (map (\<lambda>p. (ID (h0 p), p)) ps))" by blast
  from IH have G1: "ss1 = name_conflict (map h0 ps)" by blast
  have hx: "h1 x = h0 x" using A1 xps by simp
  define hc where "hc = fst (Load_conflicts names1 (Names (h1 x)) (h1, ss1))"
  have hc_eq: "hc p = (h1 p)\<lparr>Names := filter (\<lambda>n. \<not> (n \<in> set (Names (h0 x)) \<and> names1 n = Some p)) (Names (h1 p))\<rparr>" for p
    unfolding hc_def Load_conflicts_heap hx by simp
  have hc_out: "hc p = h1 p" if "p \<notin> set ps" for p
  proof -
    have "filter (\<lambda>n. \<not> (n \<in> set (Names (h0 x)) \<and> names1 n = Some p)) (Names (h1 p)) = Names (h1 p)"
      using C1 that by (intro filter_True) auto
    then show ?thesis by (simp add: hc_eq)
  qed
  have hc_in: "hc p = (h1 p)\<lparr>Names := filter (\<lambda>n. n \<notin> set (Names (h0 x))) (Names (h1 p))\<rparr>" if "p \<in> set ps" for p
  proof -
    have "filter (\<lambda>n. \<not> (n \<in> set (Names (h0 x)) \<and> names1 n = Some p)) (Names (h1 p))
        = filter (\<lambda>n. n \<notin> set (Names (h0 x))) (Names (h1 p))"
      using C1 that by (intro filter_cong) auto
    then show ?thesis by (simp add: hc_eq)
  qed
  from Load_loop_single[OF fin[unfolded st1_eq]] obtain y where
    y: "recomputeDigests E (hc x) = Inr y" and
    h: "h = hc(x := y\<lparr>ReadOnly := \<not> rw\<rparr>)" and
    ids: "ids = ids1(ID (h1 x) \<mapsto> x)" and
    idlist: "idlist = idlist1 @ [ID (h1 x)]" and
    names: "names = bind_names x (Names y) names1" and
    ss: "ss = snd (Load_conflicts names1 (Names (h1 x)) (h1, ss1))"
    unfolding hc_def by auto
  have hcx: "hc x = h0 x" using hc_out[OF xps] hx by simp
  from y hcx have y0: "recomputeDigests E (h0 x) = Inr y" by simp
  from recomputeDigests_fields[OF y0] have Ny: "Names y = Names (h0 x)"
    by (metis Image.select_convs(4) Image.surjective Image.update_convs(2) Image.update_convs(3))
  have A: "\<forall>p. p \<notin> set (ps @ [x]) \<longrightarrow> h p = h0 p"
    using h hc_out A1 by auto
  have Bps: "map (\<lambda>p. Names (h p)) ps = map (filter (\<lambda>n. n \<notin> set (Names (h0 x)))) (names_after_load (map h0 ps))"
  proof -
    have "map (\<lambda>p. Names (h p)) ps = map (\<lambda>p. filter (\<lambda>n. n \<notin> set (Names (h0 x))) (Names (h1 p))) ps"
      using h xps hc_in by (intro map_cong) auto
    also have "\<dots> = map (filter (\<lambda>n. n \<notin> set (Names (h0 x)))) (map (\<lambda>p. Names (h1 p)) ps)"
      by (simp add: comp_def)
    finally show ?thesis using B1 by simp
  qed
  have B: "map (\<lambda>p. Names (h p)) (ps @ [x]) = names_after_load (map h0 (ps @ [x]))"
    using Bps h Ny by (simp add: names_after_load_snoc)
  have C: "\<forall>n p. names n = Some p \<longleftrightarrow> (p \<in> set (ps @ [x]) \<and> n \<in> set (Names (h p)))"
  proof (intro allI)
    fix n p
    show "names n = Some p \<longleftrightarrow> (p \<in> set (ps @ [x]) \<and> n \<in> set (Names (h p)))"
    proof (cases "p = x")
      case True
      then show ?thesis using names Ny h C1 xps by (auto simp: bind_names_eq)
    next
      case False
      then show ?thesis using names Ny h C1[of n p] hc_in[of p] by (auto simp: bind_names_eq)
    qed
  qed
  have D: "\<forall>p\<in>set (ps @ [x]). \<exists>y. recomputeDigests E (h0 p) = Inr y \<and>
        h p = y\<lparr>Names := Names (h p), ReadOnly := \<not> rw\<rparr>"
  proof
    fix p assume "p \<in> set (ps @ [x])"
    then consider "p = x" | "p \<in> set ps" "p \<noteq> x" by auto
    then show "\<exists>y. recomputeDigests E (h0 p) = Inr y \<and> h p = y\<lparr>Names := Names (h p), ReadOnly := \<not> rw\<rparr>"
    proof cases
      case 1
      then show ?thesis using y0 h by auto
    next
      case 2
      from D1[OF 2(1)] obtain z where z: "recomputeDigests E (h0 p) = Inr z"
        "h1 p = z\<lparr>Names := Names (h1 p), ReadOnly := \<not> rw\<rparr>" by blast
      have "h p = hc p" using h 2 by simp
      also have "\<dots> = (h1 p)\<lparr>Names := filter (\<lambda>n. n \<notin> set (Names (h0 x))) (Names (h1 p))\<rparr>"
        using hc_in[OF 2(1)] .
      finally have hp: "h p = (h1 p)\<lparr>Names := filter (\<lambda>n. n \<notin> set (Names (h0 x))) (Names (h1 p))\<rparr>" .
      have "h p = z\<lparr>Names := Names (h p), ReadOnly := \<not> rw\<rparr>"
        by (subst hp, subst z(2), subst hp) simp
      with z(1) show ?thesis by blast
    qed
  qed
  have E': "idlist = map (\<lambda>p. ID (h0 p)) (ps @ [x])" using idlist E1 hx by simp
  have F: "ids = map_of (rev (map (\<lambda>p. (ID (h0 p), p)) (ps @ [x])))"
    using ids F1 hx by (auto intro!: ext)
  have "ss = (ss1 \<or> (\<exists>n\<in>set (Names (h0 x)). names1 n \<noteq> None))"
    using ss hx by (simp add: Load_conflicts_flag)
  moreover have "(\<exists>n\<in>set (Names (h0 x)). names1 n \<noteq> None)
      \<longleftrightarrow> (\<exists>y\<in>set (map h0 ps). set (Names y) \<inter> set (Names (h0 x)) \<noteq> {})"
  proof -
    have "(\<exists>n\<in>set (Names (h0 x)). names1 n \<noteq> None) \<longleftrightarrow>
          (\<exists>n\<in>set (Names (h0 x)). \<exists>p\<in>set ps. n \<in> set (Names (h1 p)))"
      using C1 by (metis not_Some_eq)
    also have "\<dots> \<longleftrightarrow> (\<exists>n\<in>set (Names (h0 x)). n \<in> (\<Union>ns\<in>set (map (\<lambda>p. Names (h1 p)) ps). set ns))"
      by auto
    also have "\<dots> \<longleftrightarrow> (\<exists>n\<in>set (Names (h0 x)). n \<in> (\<Union>y\<in>set (map h0 ps). set (Names y)))"
      unfolding B1 names_after_load_union ..
    also have "\<dots> \<longleftrightarrow> (\<exists>y\<in>set (map h0 ps). set (Names y) \<inter> set (Names (h0 x)) \<noteq> {})"
      by auto
    finally show ?thesis .
  qed
  ultimately have G: "ss = name_conflict (map h0 (ps @ [x]))"
    using G1 by (simp add: name_conflict_snoc)
  from A B C D E' F G show ?case by blast
qed

lemma alloc_outside: "p < n \<Longrightarrow> alloc h n imgs p = h p"
  by (induction imgs arbitrary: h n) auto

lemma alloc_nth: "k < length imgs \<Longrightarrow> alloc h n imgs (n + k) = imgs ! k"
proof (induction imgs arbitrary: h n k)
  case Nil then show ?case by simp
next
  case (Cons i imgs)
  show ?case
  proof (cases k)
    case 0
    then show ?thesis by (simp add: alloc_outside)
  next
    case (Suc j)
    with Cons.prems have "j < length imgs" by simp
    from Cons.IH[OF this, of "h(n := i)" "Suc n"] have "alloc (h(n := i)) (Suc n) imgs (Suc (n + j)) = imgs ! j"
      by (simp del: fun_upd_apply)
    with Suc show ?thesis by (simp del: fun_upd_apply)
  qed
qed

lemma map_alloc: "map (alloc h n imgs) [n..<n + length imgs] = imgs"
  by (rule nth_equalityI) (auto simp: alloc_nth)

lemma name_conflict_iff:
  "name_conflict xs \<longleftrightarrow>
     (\<exists>i j. i < j \<and> j < length xs \<and> set (Names (xs ! i)) \<inter> set (Names (xs ! j)) \<noteq> {})"
proof (induction xs)
  case Nil then show ?case by simp
next
  case (Cons x xs)
  show ?case
  proof
    assume "name_conflict (x # xs)"
    then consider y where "y \<in> set xs" "set (Names x) \<inter> set (Names y) \<noteq> {}" | "name_conflict xs"
      by auto
    then show "\<exists>i j. i < j \<and> j < length (x # xs) \<and> set (Names ((x # xs) ! i)) \<inter> set (Names ((x # xs) ! j)) \<noteq> {}"
    proof cases
      case 1
      then obtain j where "j < length xs" "xs ! j = y" by (auto simp: in_set_conv_nth)
      with 1 have "0 < Suc j \<and> Suc j < length (x # xs) \<and> set (Names ((x # xs) ! 0)) \<inter> set (Names ((x # xs) ! Suc j)) \<noteq> {}"
        by simp
      then show ?thesis by blast
    next
      case 2
      with Cons.IH obtain i j where "i < j \<and> j < length xs \<and> set (Names (xs ! i)) \<inter> set (Names (xs ! j)) \<noteq> {}"
        by blast
      then have "Suc i < Suc j \<and> Suc j < length (x # xs) \<and> set (Names ((x # xs) ! Suc i)) \<inter> set (Names ((x # xs) ! Suc j)) \<noteq> {}"
        by simp
      then show ?thesis by blast
    qed
  next
    assume "\<exists>i j. i < j \<and> j < length (x # xs) \<and> set (Names ((x # xs) ! i)) \<inter> set (Names ((x # xs) ! j)) \<noteq> {}"
    then obtain i j where ij: "i < j" "j < length (x # xs)"
      "set (Names ((x # xs) ! i)) \<inter> set (Names ((x # xs) ! j)) \<noteq> {}" by blast
    from ij(1) obtain j' where j': "j = Suc j'" by (cases j) auto
    show "name_conflict (x # xs)"
    proof (cases i)
      case 0
      with ij j' have "xs ! j' \<in> set xs" "set (Names x) \<inter> set (Names (xs ! j')) \<noteq> {}" by auto
      then show ?thesis by auto
    next
      case (Suc i')
      with ij j' have "i' < j' \<and> j' < length xs \<and> set (Names (xs ! i')) \<inter> set (Names (xs ! j')) \<noteq> {}"
        by simp
      with Cons.IH have "name_conflict xs" by blast
      then show ?thesis by simp
    qed
  qed
qed

lemma Load_loop_succeeds:
  "distinct ps \<Longrightarrow> \<forall>p\<in>set ps. \<exists>y. recomputeDigests E (h0 p) = Inr y \<Longrightarrow>
   \<exists>st. Load_loop E rw ps (h0, Map.empty, [], Map.empty, Map.empty, False) = Inr st"
proof (induction ps rule: rev_induct)
  case Nil then show ?case by (intro exI) (rule Load_loop.simps(1))
next
  case (snoc x ps)
  then obtain st where st: "Load_loop E rw ps (h0, Map.empty, [], Map.empty, Map.empty, False) = Inr st"
    by auto
  obtain h ids idlist names digests ss where st_eq: "st = (h, ids, idlist, names, digests, ss)"
    by (cases st)
  from snoc.prems have dps: "distinct ps" and xps: "x \<notin> set ps" by auto
  note inv = Load_loop_inv[OF dps st[unfolded st_eq]]
  from inv xps have hx: "h x = h0 x" by blast
  from inv have C: "\<And>n p. names n = Some p \<longleftrightarrow> (p \<in> set ps \<and> n \<in> set (Names (h p)))" by blast
  have "filter (\<lambda>n. \<not> (n \<in> set (Names (h0 x)) \<and> names n = Some x)) (Names (h0 x)) = Names (h0 x)"
    using C xps by (intro filter_True) auto
  then have "fst (Load_conflicts names (Names (h x)) (h, ss)) x = h0 x"
    by (simp add: Load_conflicts_heap hx)
  moreover from snoc.prems obtain y where "recomputeDigests E (h0 x) = Inr y" by auto
  ultimately have "\<exists>st'. Load_loop E rw [x] (h, ids, idlist, names, digests, ss) = Inr st'"
    by (cases "Load_conflicts names (Names (h x)) (h, ss)") auto
  then show ?case
    by (simp add: Load_loop_append st st_eq del: Load_loop.simps)
qed

lemma Load_parsed:
  assumes "imagesjson r = Json imgs \<or> ((imagesjson r = Missing \<or> imagesjson r = Blank) \<and> imgs = [])"
  shows "Load E r =
     (case Load_loop E (IsReadWrite r) [nextptr r..<nextptr r + length imgs]
             (alloc (heap r) (nextptr r) imgs, Map.empty, [], Map.empty, Map.empty, False) of
        Inl e \<Rightarrow> (Some e, r)
      | Inr (h, ids, idlist, names, digests, shouldSave) \<Rightarrow>
          if shouldSave \<and> (\<not> IsReadWrite r \<or> \<not> Locked r) then (Some ErrDuplicateImageNames, r)
          else if shouldSave
            then Save E (r\<lparr>heap := h, nextptr := nextptr r + length imgs,
                     images := [nextptr r..<nextptr r + length imgs],
                     idindex := NewTruncIndex idlist, byid := ids, byname := names, bydigest := digests\<rparr>)
            else (None, r\<lparr>heap := h, nextptr := nextptr r + length imgs,
                     images := [nextptr r..<nextptr r + length imgs],
                     idindex := NewTruncIndex idlist, byid := ids, byname := names, bydigest := digests\<rparr>))"
  proof (cases "imagesjson r")
  case (Json l)
  with assms have "l = imgs" by simp
  with Json show ?thesis by (simp add: Load_def Let_def split: sum.splits prod.splits)
qed (use assms in \<open>simp_all add: Load_def Let_def split: sum.splits prod.splits\<close>)

lemma Load_valid_snapshot:
  assumes snap: "imagesjson r = Json imgs \<or> ((imagesjson r = Missing \<or> imagesjson r = Blank) \<and> imgs = [])"
    and valid: "\<forall>x\<in>set imgs. \<exists>y. recomputeDigests E x = Inr y"
  shows "\<exists>h idlist ids names digests r1.
     r1 = r\<lparr>heap := h, nextptr := nextptr r + length imgs,
             images := [nextptr r..<nextptr r + length imgs],
             idindex := NewTruncIndex idlist, byid := ids, byname := names, bydigest := digests\<rparr>
     \<and> Load E r = (if name_conflict imgs
                   then (if IsReadWrite r \<and> Locked r then Save E r1
                         else (Some ErrDuplicateImageNames, r))
                   else (None, r1))
     \<and> (\<forall>k<length imgs. \<exists>y. recomputeDigests E (imgs ! k) = Inr y \<and>
            h (nextptr r + k) = y\<lparr>Names := names_after_load imgs ! k, ReadOnly := \<not> IsReadWrite r\<rparr>)
     \<and> (\<forall>n p. names n = Some p \<longleftrightarrow>
            (p \<in> set [nextptr r..<nextptr r + length imgs] \<and> n \<in> set (Names (h p))))
     \<and> (\<forall>p. p < nextptr r \<longrightarrow> h p = heap r p)
     \<and> idlist = map ID imgs
     \<and> ids = map_of (rev (zip (map ID imgs) [nextptr r..<nextptr r + length imgs]))"
proof -
  let ?ps = "[nextptr r..<nextptr r + length imgs]"
  let ?h0 = "alloc (heap r) (nextptr r) imgs"
  have h0: "map ?h0 ?ps = imgs" by (rule map_alloc)
  have dps: "distinct ?ps" by simp
  have "\<forall>p\<in>set ?ps. \<exists>y. recomputeDigests E (?h0 p) = Inr y"
  proof
    fix p assume "p \<in> set ?ps"
    then have "?h0 p \<in> set (map ?h0 ?ps)" by (intro imageI[of p "set ?ps" ?h0, folded set_map])
    with h0 valid show "\<exists>y. recomputeDigests E (?h0 p) = Inr y" by simp
  qed
  from Load_loop_succeeds[OF dps this, of "IsReadWrite r"] obtain st where
    st: "Load_loop E (IsReadWrite r) ?ps (?h0, Map.empty, [], Map.empty, Map.empty, False) = Inr st"
    by blast
  obtain h ids idlist names digests ss where st_eq: "st = (h, ids, idlist, names, digests, ss)"
    by (cases st)
  note inv = Load_loop_inv[OF dps st[unfolded st_eq], unfolded h0]
  from inv have A: "\<And>p. p \<notin> set ?ps \<Longrightarrow> h p = ?h0 p" by blast
  from inv have B: "map (\<lambda>p. Names (h p)) ?ps = names_after_load imgs" by blast
  from inv have C: "\<forall>n p. names n = Some p \<longleftrightarrow> (p \<in> set ?ps \<and> n \<in> set (Names (h p)))" by blast
  from inv have D: "\<And>p. p \<in> set ?ps \<Longrightarrow> \<exists>y. recomputeDigests E (?h0 p) = Inr y \<and>
        h p = y\<lparr>Names := Names (h p), ReadOnly := \<not> IsReadWrite r\<rparr>" by blast
  from inv have E': "idlist = map (\<lambda>p. ID (?h0 p)) ?ps" by blast
  from inv have F: "ids = map_of (rev (map (\<lambda>p. (ID (?h0 p), p)) ?ps))" by blast
  from inv have G: "ss = name_conflict imgs" by blast
  let ?r1 = "r\<lparr>heap := h, nextptr := nextptr r + length imgs, images := ?ps,
             idindex := NewTruncIndex idlist, byid := ids, byname := names, bydigest := digests\<rparr>"
  have L: "Load E r = (if name_conflict imgs
                   then (if IsReadWrite r \<and> Locked r then Save E ?r1
                         else (Some ErrDuplicateImageNames, r))
                   else (None, ?r1))"
    using G by (simp add: Load_parsed[OF snap] st st_eq)
  have K: "\<forall>k<length imgs. \<exists>y. recomputeDigests E (imgs ! k) = Inr y \<and>
            h (nextptr r + k) = y\<lparr>Names := names_after_load imgs ! k, ReadOnly := \<not> IsReadWrite r\<rparr>"
  proof (intro allI impI)
    fix k assume k: "k < length imgs"
    then have mem: "nextptr r + k \<in> set ?ps" by simp
    have "Names (h (nextptr r + k)) = map (\<lambda>p. Names (h p)) ?ps ! k"
      using k by simp
    then have N: "Names (h (nextptr r + k)) = names_after_load imgs ! k" using B by simp
    from D[OF mem] N alloc_nth[OF k, of "heap r" "nextptr r"]
    show "\<exists>y. recomputeDigests E (imgs ! k) = Inr y \<and>
            h (nextptr r + k) = y\<lparr>Names := names_after_load imgs ! k, ReadOnly := \<not> IsReadWrite r\<rparr>"
      by auto
  qed
  have O: "\<forall>p. p < nextptr r \<longrightarrow> h p = heap r p"
    using A alloc_outside by simp
  have E'': "idlist = map ID imgs"
  proof -
    have "map (\<lambda>p. ID (?h0 p)) ?ps = map ID (map ?h0 ?ps)" by (simp add: comp_def)
    then show ?thesis using E' h0 by simp
  qed
  have F': "ids = map_of (rev (zip (map ID imgs) ?ps))"
  proof -
    have "map (\<lambda>p. (ID (?h0 p), p)) ?ps = zip (map ID (map ?h0 ?ps)) ?ps"
      by (simp add: zip_map1 zip_same_conv_map comp_def)
    then show ?thesis using F h0 by simp
  qed
  from L K C O E'' F' show ?thesis by blast
qed

subsection \<open>Load: records that claim the same name\<close>

text \<open>
  Claim C2, as amended. For every persisted snapshot whose records all pass digest
  validation and in which two records claim the same name: in a session that may write
  and holds the lock for writing, \<^verbatim>\<open>Load\<close> builds a view in which every record keeps
  exactly the names that no later record of the list claims (so the name is stripped from
  the earlier record and stays, bound in the by-name index, on the last record claiming
  it) and returns what \<^verbatim>\<open>Save\<close> returns on that view; in a read-only session, or
  when the lock is not held for writing, \<^verbatim>\<open>Load\<close> returns the duplicate-names error
  and leaves the store as it was.
\<close>

theorem C2_Load_duplicate_names:
  assumes snap: "imagesjson r = Json imgs"
    and ij: "i < j" "j < length imgs"
    and ni: "name \<in> set (Names (imgs ! i))" and nj: "name \<in> set (Names (imgs ! j))"
    and valid: "\<forall>x\<in>set imgs. \<exists>y. recomputeDigests E x = Inr y"
  shows "if IsReadWrite r \<and> Locked r
         then \<exists>r1. Load E r = Save E r1 \<and> IsReadWrite r1 \<and> Locked r1
                \<and> images r1 = [nextptr r..<nextptr r + length imgs]
                \<and> (\<forall>k<length imgs. Names (heap r1 (images r1 ! k)) =
                      filter (\<lambda>n. \<forall>m. k < m \<and> m < length imgs \<longrightarrow> n \<notin> set (Names (imgs ! m)))
                        (Names (imgs ! k)))
                \<and> name \<notin> set (Names (heap r1 (images r1 ! i)))
                \<and> (\<exists>k. j \<le> k \<and> k < length imgs \<and> name \<in> set (Names (heap r1 (images r1 ! k)))
                        \<and> byname r1 name = Some (images r1 ! k))
         else Load E r = (Some ErrDuplicateImageNames, r)"
proof -
  let ?ps = "[nextptr r..<nextptr r + length imgs]"
  from Load_valid_snapshot[OF disjI1[OF snap] valid]
  obtain h idlist ids names digests r1 where
    r1: "r1 = r\<lparr>heap := h, nextptr := nextptr r + length imgs, images := ?ps,
             idindex := NewTruncIndex idlist, byid := ids, byname := names, bydigest := digests\<rparr>"
    and L: "Load E r = (if name_conflict imgs
                   then (if IsReadWrite r \<and> Locked r then Save E r1
                         else (Some ErrDuplicateImageNames, r))
                   else (None, r1))"
    and K: "\<forall>k<length imgs. \<exists>y. recomputeDigests E (imgs ! k) = Inr y \<and>
            h (nextptr r + k) = y\<lparr>Names := names_after_load imgs ! k, ReadOnly := \<not> IsReadWrite r\<rparr>"
    and C: "\<forall>n p. names n = Some p \<longleftrightarrow> (p \<in> set ?ps \<and> n \<in> set (Names (h p)))"
    by blast
  from ij ni nj have "i < j \<and> j < length imgs \<and> set (Names (imgs ! i)) \<inter> set (Names (imgs ! j)) \<noteq> {}"
    by auto
  then have conflict: "name_conflict imgs" unfolding name_conflict_iff by blast
  have N: "Names (heap r1 (images r1 ! k)) =
             filter (\<lambda>n. \<forall>m. k < m \<and> m < length imgs \<longrightarrow> n \<notin> set (Names (imgs ! m))) (Names (imgs ! k))"
    if k: "k < length imgs" for k
  proof -
    from K k obtain y where "h (nextptr r + k) = y\<lparr>Names := names_after_load imgs ! k, ReadOnly := \<not> IsReadWrite r\<rparr>"
      by blast
    then have "Names (h (nextptr r + k)) = names_after_load imgs ! k" by simp
    with k show ?thesis by (simp add: r1 names_after_load_nth)
  qed
  have stripped: "name \<notin> set (Names (heap r1 (images r1 ! i)))"
  proof -
    from ij have "i < length imgs" by simp
    from N[OF this] ij nj show ?thesis by auto
  qed
  define claimants where "claimants = {m. m < length imgs \<and> name \<in> set (Names (imgs ! m))}"
  have fin: "finite claimants" unfolding claimants_def by simp
  have jc: "j \<in> claimants" unfolding claimants_def using ij nj by simp
  define k where "k = Max claimants"
  have kc: "k \<in> claimants" unfolding k_def using fin jc by (intro Max_in) auto
  have jk: "j \<le> k" unfolding k_def using fin jc by simp
  have later: "\<forall>m. k < m \<and> m < length imgs \<longrightarrow> name \<notin> set (Names (imgs ! m))"
  proof (intro allI impI notI)
    fix m assume m: "k < m \<and> m < length imgs" and "name \<in> set (Names (imgs ! m))"
    then have "m \<in> claimants" unfolding claimants_def by simp
    then have "m \<le> k" unfolding k_def using fin by simp
    with m show False by simp
  qed
  from kc have klen: "k < length imgs" and kname: "name \<in> set (Names (imgs ! k))"
    unfolding claimants_def by auto
  have keeps: "name \<in> set (Names (heap r1 (images r1 ! k)))"
    using N[OF klen] later kname by simp
  have "names name = Some (nextptr r + k)"
    using C keeps klen by (simp add: r1)
  then have bound: "byname r1 name = Some (images r1 ! k)" using klen by (simp add: r1)
  show ?thesis
  proof (cases "IsReadWrite r \<and> Locked r")
    case True
    then have "IsReadWrite r1 \<and> Locked r1" by (simp add: r1 IsReadWrite_def Locked_def)
    moreover have "Load E r = Save E r1" using L conflict True by simp
    moreover have "images r1 = ?ps" by (simp add: r1)
    moreover have "\<forall>k<length imgs. Names (heap r1 (images r1 ! k)) =
                      filter (\<lambda>n. \<forall>m. k < m \<and> m < length imgs \<longrightarrow> n \<notin> set (Names (imgs ! m)))
                        (Names (imgs ! k))" using N by blast
    moreover have "\<exists>k. j \<le> k \<and> k < length imgs \<and> name \<in> set (Names (heap r1 (images r1 ! k)))
                        \<and> byname r1 name = Some (images r1 ! k)"
      using jk klen keeps bound by blast
    ultimately have "\<exists>r1. Load E r = Save E r1 \<and> IsReadWrite r1 \<and> Locked r1
                \<and> images r1 = [nextptr r..<nextptr r + length imgs]
                \<and> (\<forall>k<length imgs. Names (heap r1 (images r1 ! k)) =
                      filter (\<lambda>n. \<forall>m. k < m \<and> m < length imgs \<longrightarrow> n \<notin> set (Names (imgs ! m)))
                        (Names (imgs ! k)))
                \<and> name \<notin> set (Names (heap r1 (images r1 ! i)))
                \<and> (\<exists>k. j \<le> k \<and> k < length imgs \<and> name \<in> set (Names (heap r1 (images r1 ! k)))
                        \<and> byname r1 name = Some (images r1 ! k))"
      using stripped by blast
    with True show ?thesis by (simp only: if_True simp_thms)
  next
    case False
    then show ?thesis using L conflict by auto
  qed
qed

lemma ex_valid: "recomputeDigests ex_extern (zeroImage\<lparr>ID := a, Names := b\<rparr>) = Inr (zeroImage\<lparr>ID := a, Names := b\<rparr>)"
  by (simp add: recomputeDigests_def ex_extern_def zeroImage_def)

theorem C2_Load_duplicate_names_witness:
  "imagesjson (emptyStore\<lparr>imagesjson := Json ex_same_name\<rparr>) = Json ex_same_name
   \<and> (0::nat) < 1 \<and> 1 < length ex_same_name
   \<and> ''n'' \<in> set (Names (ex_same_name ! 0)) \<and> ''n'' \<in> set (Names (ex_same_name ! 1))
   \<and> (\<exists>r1. Load ex_extern (emptyStore\<lparr>imagesjson := Json ex_same_name\<rparr>) = Save ex_extern r1
          \<and> images r1 = [0, 1]
          \<and> ''n'' \<notin> set (Names (heap r1 0)) \<and> ''n'' \<in> set (Names (heap r1 1))
          \<and> byname r1 ''n'' = Some 1)"
proof -
  let ?r = "emptyStore\<lparr>imagesjson := Json ex_same_name\<rparr>"
  have v: "\<forall>x\<in>set ex_same_name. \<exists>y. recomputeDigests ex_extern x = Inr y"
    by (simp add: ex_same_name_def ex_valid)
  have rw: "IsReadWrite ?r \<and> Locked ?r" by (simp add: IsReadWrite_def Locked_def emptyStore_def)
  have a: "imagesjson ?r = Json ex_same_name" by simp
  have b: "''n'' \<in> set (Names (ex_same_name ! 0))" "''n'' \<in> set (Names (ex_same_name ! 1))"
    by (simp_all add: ex_same_name_def)
  have l: "(1::nat) < length ex_same_name" by (simp add: ex_same_name_def)
  note th = C2_Load_duplicate_names[OF a zero_less_one l b v, unfolded if_P[OF rw]]
  from th obtain r1 where r1: "Load ex_extern ?r = Save ex_extern r1"
     "images r1 = [nextptr ?r..<nextptr ?r + length ex_same_name]"
     "''n'' \<notin> set (Names (heap r1 (images r1 ! 0)))"
     "\<exists>k. 1 \<le> k \<and> k < length ex_same_name \<and> ''n'' \<in> set (Names (heap r1 (images r1 ! k)))
                        \<and> byname r1 ''n'' = Some (images r1 ! k)"
    by blast
  have np: "nextptr ?r = 0" by (simp add: emptyStore_def)
  have len: "length ex_same_name = 2" by (simp add: ex_same_name_def)
  from r1(2) have im: "images r1 = [0, 1]" unfolding np len by (simp add: upt_rec)
  from r1(4) obtain k where k: "1 \<le> k" "k < length ex_same_name"
    "''n'' \<in> set (Names (heap r1 (images r1 ! k)))" "byname r1 ''n'' = Some (images r1 ! k)"
    by blast
  from k(1,2) len have "k = 1" by simp
  with k im have "''n'' \<in> set (Names (heap r1 1))" "byname r1 ''n'' = Some 1" by simp_all
  moreover from r1(3) im have "''n'' \<notin> set (Names (heap r1 0))" by simp
  ultimately have "\<exists>r1. Load ex_extern ?r = Save ex_extern r1
          \<and> images r1 = [0, 1]
          \<and> ''n'' \<notin> set (Names (heap r1 0)) \<and> ''n'' \<in> set (Names (heap r1 1))
          \<and> byname r1 ''n'' = Some 1"
    using r1(1) im by blast
  with a b l show ?thesis by simp
qed

text \<open>
  The claim as stated fails on a snapshot in which a record also carries a malformed
  digest: \<^verbatim>\<open>Load\<close> then returns the validation error, also in a writable session, with
  nothing stripped and nothing saved.
\<close>

theorem C2_invalid_digest_counterexample:
  "Load ex_extern (emptyStore\<lparr>imagesjson := Json ex_same_name_bad_digest\<rparr>)
     = (Some (ErrInvalidDigest ''bogus''), emptyStore\<lparr>imagesjson := Json ex_same_name_bad_digest\<rparr>)"
  by (simp add: Load_def Let_def emptyStore_def ex_same_name_bad_digest_def zeroImage_def
        recomputeDigests_def ex_extern_def upt_rec IsReadWrite_def Locked_def
        removeName_def stringSliceWithoutValue_def)

subsection \<open>Create: conflicts\<close>

lemma ex_one_image_loaded:
  "Load ex_extern (emptyStore\<lparr>imagesjson := Json [ex_image_a]\<rparr>) = (None, ex_one_image)"
  by (simp add: Load_def Let_def emptyStore_def ex_one_image_def ex_image_a_def zeroImage_def
        recomputeDigests_def ex_extern_def upt_rec IsReadWrite_def Locked_def NewTruncIndex_def
        truncindex_Add_def)

lemma set_dedupe_from: "set (dedupe_from seen xs) = set xs - set seen"
  by (induction seen xs rule: dedupe_from.induct) auto

lemma set_dedupeNames: "set (dedupeNames names) = set names"
  by (simp add: dedupeNames_def set_dedupe_from)

lemma Create_randomID_free: "Create_randomID E ids k = Some x \<Longrightarrow> ids x = None"
  by (rule Create_randomID.raw_induct[where P = "\<lambda>E ids k x. ids x = None"])
     (auto split: if_splits)

lemma find_bound_name:
  "(\<exists>y. find P xs = Some y) \<longleftrightarrow> (\<exists>x\<in>set xs. P x)"
  by (induction xs) auto

text \<open>
  Claim C3, as amended. For every store state of a session that may write, and every
  \<^verbatim>\<open>Create\<close> call whose requested ID already exists or whose name list contains a name
  bound to an image (the random draw, when no ID is requested, returning), \<^verbatim>\<open>Create\<close>
  fails with the duplicate-ID error, or else the duplicate-name error, and returns the
  store unchanged; an image bound to a name is still retrieved by that name.
\<close>

theorem C3_Create_conflict:
  assumes rw: "IsReadWrite r"
    and draw: "iD = [] \<longrightarrow> Create_randomID E (byid r) 0 \<noteq> None"
    and conflict: "(iD \<noteq> [] \<and> byid r iD \<noteq> None) \<or> (\<exists>name\<in>set names. byname r name \<noteq> None)"
  shows "\<exists>e. Create E r iD names layer metadata created searchableDigest = Some ((None, Some e), r)
           \<and> (e = ErrDuplicateID \<or> e = ErrDuplicateName)
           \<and> (e = ErrDuplicateID \<longleftrightarrow> iD \<noteq> [] \<and> byid r iD \<noteq> None)
           \<and> (\<forall>name img. byname r name = Some img \<and> byid r name = None
                 \<longrightarrow> Get r name = Inr (copyImage (heap r img)))"
proof -
  have get: "\<forall>name img. byname r name = Some img \<and> byid r name = None
                 \<longrightarrow> Get r name = Inr (copyImage (heap r img))"
    by (simp add: Get_def lookup_def)
  show ?thesis
  proof (cases "iD \<noteq> [] \<and> byid r iD \<noteq> None")
    case True
    then have "Create E r iD names layer metadata created searchableDigest
                 = Some ((None, Some ErrDuplicateID), r)"
      using rw by (auto simp: Create_def)
    with True get show ?thesis by simp
  next
    case False
    with conflict obtain name where name: "name \<in> set names" "byname r name \<noteq> None" by blast
    then have "\<exists>x\<in>set (dedupeNames names). byname r x \<noteq> None"
      by (auto simp: set_dedupeNames)
    then obtain y where y: "find (\<lambda>name. byname r name \<noteq> None) (dedupeNames names) = Some y"
      using find_bound_name[of "\<lambda>name. byname r name \<noteq> None" "dedupeNames names"] by blast
    obtain i where i: "(if iD = [] then Create_randomID E (byid r) 0 else Some iD) = Some i"
      using draw by (cases "iD = []") auto
    have free: "byid r i = None"
    proof (cases "iD = []")
      case True
      with i show ?thesis by (simp add: Create_randomID_free)
    next
      case False
      with i \<open>\<not> (iD \<noteq> [] \<and> byid r iD \<noteq> None)\<close> show ?thesis by auto
    qed
    have "Create E r iD names layer metadata created searchableDigest
            = Some ((None, Some ErrDuplicateName), r)"
      unfolding Create_def using rw i free y by (simp add: Let_def)
    with False get show ?thesis by simp
  qed
qed

theorem C3_Create_conflict_witness:
  "IsReadWrite ex_one_image \<and> byname ex_one_image ''n'' \<noteq> None
   \<and> Create ex_extern ex_one_image ''b'' [''n''] [] [] 0 []
       = Some ((None, Some ErrDuplicateName), ex_one_image)
   \<and> Get ex_one_image ''n'' = Inr (copyImage ex_image_a)"
proof -
  have rw: "IsReadWrite ex_one_image" by (simp add: IsReadWrite_def ex_one_image_def emptyStore_def)
  have bn: "byname ex_one_image ''n'' = Some 0" "byid ex_one_image ''n'' = None"
    "byid ex_one_image ''b'' = None" "heap ex_one_image 0 = ex_image_a"
    by (simp_all add: ex_one_image_def emptyStore_def)
  have c: "(''b'' \<noteq> [] \<and> byid ex_one_image ''b'' \<noteq> None) \<or> (\<exists>name\<in>set [''n'']. byname ex_one_image name \<noteq> None)"
    using bn by simp
  from C3_Create_conflict[OF rw _ c, of ex_extern "[]" "[]" 0 "[]"]
  obtain e where e: "Create ex_extern ex_one_image ''b'' [''n''] [] [] 0 [] = Some ((None, Some e), ex_one_image)"
    "e = ErrDuplicateID \<or> e = ErrDuplicateName"
    "e = ErrDuplicateID \<longleftrightarrow> ''b'' \<noteq> [] \<and> byid ex_one_image ''b'' \<noteq> None"
    "\<forall>name img. byname ex_one_image name = Some img \<and> byid ex_one_image name = None
                 \<longrightarrow> Get ex_one_image name = Inr (copyImage (heap ex_one_image img))"
    by auto
  from e(2,3) bn have "e = ErrDuplicateName" by simp
  moreover from e(4) bn have "Get ex_one_image ''n'' = Inr (copyImage ex_image_a)" by auto
  ultimately show ?thesis using e(1) rw bn by simp
qed

text \<open>
  The claim as stated fails in a read-only session: the guard on the access mode comes
  first, and \<^verbatim>\<open>Create\<close> with the ID of an existing image returns the read-only error.
\<close>

theorem C3_read_only_counterexample:
  "byid (ex_one_image\<lparr>lockfile_IsReadWrite := False, lockfile_Locked := False\<rparr>) ''a'' = Some 0
   \<and> Create ex_extern (ex_one_image\<lparr>lockfile_IsReadWrite := False, lockfile_Locked := False\<rparr>)
        ''a'' [] [] [] 0 []
      = Some ((None, Some ErrStoreIsReadOnly),
              ex_one_image\<lparr>lockfile_IsReadWrite := False, lockfile_Locked := False\<rparr>)"
  by (simp add: Create_def IsReadWrite_def ex_one_image_def emptyStore_def)

subsection \<open>What each method leaves of the store\<close>

lemma Save_result:
  "Save E r = (e, r') \<Longrightarrow>
     heap r' = heap r \<and> images r' = images r \<and> byid r' = byid r \<and> byname r' = byname r
     \<and> bydigest r' = bydigest r \<and> idindex r' = idindex r \<and> blobs r' = blobs r
     \<and> datadirs r' = datadirs r \<and> nextptr r' = nextptr r
     \<and> lockfile_IsReadWrite r' = lockfile_IsReadWrite r
     \<and> lockfile_Locked r' = lockfile_Locked r"
  by (auto simp: Save_def Touch_def split: if_splits)

lemma Save_fields:
  "heap (snd (Save E r)) = heap r" "images (snd (Save E r)) = images r"
  "byid (snd (Save E r)) = byid r" "byname (snd (Save E r)) = byname r"
  "bydigest (snd (Save E r)) = bydigest r" "idindex (snd (Save E r)) = idindex r"
  "blobs (snd (Save E r)) = blobs r" "datadirs (snd (Save E r)) = datadirs r"
  "nextptr (snd (Save E r)) = nextptr r"
  "lockfile_IsReadWrite (snd (Save E r)) = lockfile_IsReadWrite r"
  "lockfile_Locked (snd (Save E r)) = lockfile_Locked r"
  by (simp_all add: Save_def Touch_def)

lemma Save_None:
  "Save E r = (None, r') \<Longrightarrow>
     imagesjson r' = Json (map (\<lambda>p. json_fields (heap r p)) (images r))
     \<and> lockfile_touches r' = Suc (lockfile_touches r)
     \<and> IsReadWrite r \<and> Locked r"
  by (auto simp: Save_def Touch_def split: if_splits)

lemma Create_result:
  assumes "Create E r iD names layer metadata created dg = Some (res, r')"
  shows "r' = r \<or>
    (\<exists>i. recomputeDigests E
            \<lparr>ID = ID i, Digest = dg, Digests = [], Names = dedupeNames names,
             NamesHistory = [], TopLayer = layer, MappedTopLayers = [],
             Metadata = metadata, BigDataNames = [], BigDataSizes = Map.empty,
             BigDataDigests = [], Created = (if created = 0 then Now E else created),
             ReadOnly = False, Flags = Map.empty\<rparr> = Inr i
        \<and> byid r (ID i) = None
        \<and> (\<forall>n\<in>set names. byname r n = None)
        \<and> heap r' = (heap r)(nextptr r := i)
        \<and> nextptr r' = Suc (nextptr r)
        \<and> images r' = images r @ [nextptr r]
        \<and> idindex r' = truncindex_Add (idindex r) (ID i)
        \<and> byid r' = (byid r)(ID i \<mapsto> nextptr r)
        \<and> byname r' = bind_names (nextptr r) (dedupeNames names) (byname r)
        \<and> bydigest r' = index_digests (nextptr r) (Digests i) (bydigest r))"
proof (cases "r' = r")
  case True then show ?thesis by simp
next
  case False
  from assms False have rw: "IsReadWrite r"
    by (auto simp: Create_def split: if_splits)
  from assms False rw obtain j where
    j: "(if iD = [] then Create_randomID E (byid r) 0 else Some iD) = Some j"
    by (cases "if iD = [] then Create_randomID E (byid r) 0 else Some iD") (auto simp: Create_def)
  from assms False rw j have free: "byid r j = None"
    by (auto simp: Create_def split: if_splits)
  from assms False rw j free have nf: "find (\<lambda>name. byname r name \<noteq> None) (dedupeNames names) = None"
    by (cases "find (\<lambda>name. byname r name \<noteq> None) (dedupeNames names)") (auto simp: Create_def Let_def)
  let ?new = "\<lparr>ID = j, Digest = dg, Digests = [], Names = dedupeNames names,
             NamesHistory = [], TopLayer = layer, MappedTopLayers = [],
             Metadata = metadata, BigDataNames = [], BigDataSizes = Map.empty,
             BigDataDigests = [], Created = (if created = 0 then Now E else created),
             ReadOnly = False, Flags = Map.empty\<rparr>"
  from assms False rw j free nf obtain i where i: "recomputeDigests E ?new = Inr i"
    by (cases "recomputeDigests E ?new") (auto simp: Create_def Let_def)
  let ?r1 = "r\<lparr>heap := (heap r)(nextptr r := i), nextptr := Suc (nextptr r),
                images := images r @ [nextptr r], idindex := truncindex_Add (idindex r) j,
                byid := (byid r)(j \<mapsto> nextptr r),
                byname := bind_names (nextptr r) (dedupeNames names) (byname r),
                bydigest := index_digests (nextptr r) (Digests i) (bydigest r)\<rparr>"
  from assms rw j free nf i obtain e where s: "Save E ?r1 = (e, r')"
    by (cases "Save E ?r1") (auto simp: Create_def Let_def)
  from recomputeDigests_fields[OF i] have idi: "ID i = j"
    by (metis Image.select_convs(1) Image.surjective Image.update_convs(2) Image.update_convs(3))
  from nf have nb: "\<forall>n\<in>set names. byname r n = None"
    using find_bound_name[of "\<lambda>name. byname r name \<noteq> None" "dedupeNames names"]
    by (auto simp: set_dedupeNames)
  from Save_result[OF s] i free nb idi show ?thesis by auto
qed


lemma Delete_result:
  assumes "Delete E r iD = (res, r')"
  shows "(res \<noteq> None \<and> r' = r) \<or>
    (\<exists>img. IsReadWrite r \<and> lookup r iD = Some img
       \<and> heap r' = heap r \<and> nextptr r' = nextptr r
       \<and> byid r' = (byid r)(ID (heap r img) := None)
       \<and> idindex r' = truncindex_Delete (idindex r) (ID (heap r img))
       \<and> byname r' = unbind_names (Names (heap r img)) (byname r)
       \<and> bydigest r' = Delete_digests img (Digests (heap r img)) (bydigest r)
       \<and> images r' =
           (case Delete_scan (heap r) (ID (heap r img)) (images r) 0 None of
              None \<Rightarrow> images r
            | Some i \<Rightarrow>
                if i = length (images r) - 1 then take (length (images r) - 1) (images r)
                else take i (images r) @ drop (i + 1) (images r)))"
proof (cases "res \<noteq> None \<and> r' = r")
  case True then show ?thesis by simp
next
  case False
  from assms False have rw: "IsReadWrite r" by (auto simp: Delete_def split: if_splits)
  from assms False rw obtain img where img: "lookup r iD = Some img"
    by (cases "lookup r iD") (auto simp: Delete_def)
  let ?r1 = "r\<lparr>byid := (byid r)(ID (heap r img) := None),
                idindex := truncindex_Delete (idindex r) (ID (heap r img)),
                byname := unbind_names (Names (heap r img)) (byname r),
                bydigest := Delete_digests img (Digests (heap r img)) (bydigest r),
                images :=
                  (case Delete_scan (heap r) (ID (heap r img)) (images r) 0 None of
                     None \<Rightarrow> images r
                   | Some i \<Rightarrow>
                       if i = length (images r) - 1 then take (length (images r) - 1) (images r)
                       else take i (images r) @ drop (i + 1) (images r))\<rparr>"
  obtain e r2 where s: "Save E ?r1 = (e, r2)" by (cases "Save E ?r1")
  from assms rw img s have
    "r' = r2 \<or> r' = RemoveAll_datadir (ID (heap r img)) r2"
    by (auto simp: Delete_def Let_def split: option.splits if_splits)
  with Save_result[OF s] rw img show ?thesis by (auto simp: RemoveAll_datadir_def)
qed

lemma SetBigData_save_iff:
  "SetBigData_save i0 key data newDigest \<longleftrightarrow>
     (key \<notin> set (BigDataNames i0) \<or> BigDataSizes i0 key \<noteq> Some (int (length data))
      \<or> map_of (BigDataDigests i0) key \<noteq> Some newDigest)"
  by (auto simp: SetBigData_save_def Let_def split: option.splits)

lemma SetBigData_cache_digests [simp]:
  "Digests (SetBigData_cache i0 key data newDigest) = Digests i0"
  "Digest (SetBigData_cache i0 key data newDigest) = Digest i0"
  "ID (SetBigData_cache i0 key data newDigest) = ID i0"
  "Names (SetBigData_cache i0 key data newDigest) = Names i0"
  by (simp_all add: SetBigData_cache_def Let_def)

lemma SetBigData_result:
  assumes "SetBigData E r iD key data f = (res, r')"
  shows "(res \<noteq> None \<and> heap r' = heap r \<and> images r' = images r \<and> bydigest r' = bydigest r
           \<and> byid r' = byid r \<and> byname r' = byname r \<and> idindex r' = idindex r
           \<and> blobs r' = blobs r \<and> imagesjson r' = imagesjson r
           \<and> lockfile_touches r' = lockfile_touches r)
      \<or> (\<exists>img newDigest i1.
            key \<noteq> [] \<and> IsReadWrite r \<and> lookup r iD = Some img \<and> MkdirAll_datadir_ok E
          \<and> SetBigData_digest E key data f = Inr newDigest
          \<and> AtomicWriteFile_blob_ok E
          \<and> i1 = SetBigData_cache (heap r img) key data newDigest
          \<and> images r' = images r \<and> byid r' = byid r \<and> byname r' = byname r
          \<and> idindex r' = idindex r
          \<and> blobs r' = (blobs r)((ID (heap r img), key) \<mapsto> data)
          \<and> ((\<exists>e. recomputeDigests E i1 = Inl e \<and> res = Some e
                  \<and> heap r' = (heap r)(img := i1)
                  \<and> bydigest r' = SetBigData_prune img (Digests (heap r img)) (bydigest r)
                  \<and> imagesjson r' = imagesjson r \<and> lockfile_touches r' = lockfile_touches r)
            \<or> (\<exists>i2 r3. recomputeDigests E i1 = Inr i2
                  \<and> r3 = r\<lparr>datadirs := insert (ID (heap r img)) (datadirs r),
                           blobs := (blobs r)((ID (heap r img), key) \<mapsto> data),
                           heap := (heap r)(img := i2),
                           bydigest := SetBigData_index img (Digests i2)
                                         (SetBigData_prune img (Digests (heap r img)) (bydigest r))\<rparr>
                  \<and> heap r' = heap r3 \<and> bydigest r' = bydigest r3
                  \<and> (res, r') =
                       (if SetBigData_save (heap r img) key data newDigest
                        then Save E r3 else (None, r3)))))"
proof -
  let ?early = "res \<noteq> None \<and> heap r' = heap r \<and> images r' = images r \<and> bydigest r' = bydigest r
           \<and> byid r' = byid r \<and> byname r' = byname r \<and> idindex r' = idindex r
           \<and> blobs r' = blobs r \<and> imagesjson r' = imagesjson r
           \<and> lockfile_touches r' = lockfile_touches r"
  show ?thesis
  proof (cases ?early)
    case True then show ?thesis by blast
  next
    case False
    from assms False have k: "key \<noteq> []" by (auto simp: SetBigData_def split: if_splits)
    from assms False k have rw: "IsReadWrite r" by (auto simp: SetBigData_def split: if_splits)
    from assms False k rw obtain img where img: "lookup r iD = Some img"
      by (cases "lookup r iD") (auto simp: SetBigData_def)
    from assms False k rw img have mk: "MkdirAll_datadir_ok E"
      by (auto simp: SetBigData_def split: if_splits)
    let ?dg = "SetBigData_digest E key data f"
    from assms False k rw img mk obtain newDigest where nd: "?dg = Inr newDigest"
      by (cases ?dg) (auto simp: SetBigData_def Let_def)
    from assms False k rw img mk nd have aw: "AtomicWriteFile_blob_ok E"
      by (auto simp: SetBigData_def Let_def split: if_splits)
    let ?i0 = "heap r img"
    let ?i1 = "SetBigData_cache ?i0 key data newDigest"
    show ?thesis
    proof (cases "recomputeDigests E ?i1")
      case (Inl e)
      with assms k rw img mk nd aw have
        "res = Some e \<and> r' = r\<lparr>datadirs := insert (ID ?i0) (datadirs r),
                           blobs := (blobs r)((ID ?i0, key) \<mapsto> data),
                           heap := (heap r)(img := ?i1),
                           bydigest := SetBigData_prune img (Digests ?i0) (bydigest r)\<rparr>"
        by (simp add: SetBigData_def Let_def)
      with k rw img mk nd aw Inl show ?thesis by auto
    next
      case (Inr i2)
      let ?r3 = "r\<lparr>datadirs := insert (ID ?i0) (datadirs r),
                           blobs := (blobs r)((ID ?i0, key) \<mapsto> data),
                           heap := (heap r)(img := i2),
                           bydigest := SetBigData_index img (Digests i2)
                                         (SetBigData_prune img (Digests ?i0) (bydigest r))\<rparr>"
      from assms k rw img mk nd aw Inr have
        R: "(res, r') = (if SetBigData_save ?i0 key data newDigest
                        then Save E ?r3 else (None, ?r3))"
        by (simp add: SetBigData_def Let_def)
      have F: "heap r' = heap ?r3 \<and> bydigest r' = bydigest ?r3 \<and> images r' = images r
            \<and> byid r' = byid r \<and> byname r' = byname r \<and> idindex r' = idindex r
            \<and> blobs r' = (blobs r)((ID ?i0, key) \<mapsto> data)"
      proof (cases "SetBigData_save ?i0 key data newDigest")
        case True
        with R have "Save E ?r3 = (res, r')" by simp
        from Save_result[OF this] show ?thesis by simp
      next
        case False
        with R show ?thesis by simp
      qed
      from k rw img mk nd aw Inr R F show ?thesis by blast
    qed
  qed
qed


subsection \<open>The by-digest index never holds an empty bucket\<close>

lemma buckets_nonempty_upd:
  "buckets_nonempty bd \<Longrightarrow> l \<noteq> [] \<Longrightarrow> buckets_nonempty (bd(d \<mapsto> l))"
  by (simp add: buckets_nonempty_def)

lemma buckets_nonempty_del:
  "buckets_nonempty bd \<Longrightarrow> buckets_nonempty (bd(d := None))"
  by (simp add: buckets_nonempty_def)

lemma index_digests_nonempty:
  "buckets_nonempty bd \<Longrightarrow> buckets_nonempty (index_digests img ds bd)"
proof (induction ds arbitrary: bd)
  case Nil then show ?case by simp
next
  case (Cons d ds)
  have "buckets_nonempty (bd(d \<mapsto> (case bd d of None \<Rightarrow> [] | Some list \<Rightarrow> list) @ [img]))"
    by (rule buckets_nonempty_upd[OF Cons.prems]) simp
  from Cons.IH[OF this] show ?case by (simp del: fun_upd_apply)
qed

lemma Delete_digests_nonempty:
  "buckets_nonempty bd \<Longrightarrow> buckets_nonempty (Delete_digests img ds bd)"
proof (induction ds arbitrary: bd)
  case Nil then show ?case by simp
next
  case (Cons d ds)
  let ?pl = "imageSliceWithoutValue (case bd d of None \<Rightarrow> [] | Some list \<Rightarrow> list) img"
  show ?case
  proof (cases "?pl = []")
    case True
    then have eq: "Delete_digests img (d # ds) bd = Delete_digests img ds (bd(d := None))"
      by (simp del: fun_upd_apply)
    show ?thesis unfolding eq by (rule Cons.IH[OF buckets_nonempty_del[OF Cons.prems]])
  next
    case False
    then have eq: "Delete_digests img (d # ds) bd = Delete_digests img ds (bd(d \<mapsto> ?pl))"
      by (simp add: Let_def del: fun_upd_apply)
    show ?thesis unfolding eq by (rule Cons.IH[OF buckets_nonempty_upd[OF Cons.prems False]])
  qed
qed

lemma SetBigData_prune_eq: "SetBigData_prune img ds bd = Delete_digests img ds bd"
proof (induction ds arbitrary: bd)
  case Nil then show ?case by simp
next
  case (Cons d ds)
  show ?case
  proof (cases "bd d")
    case None
    then have "bd(d := None) = bd" by auto
    with None show ?thesis by (simp add: Cons.IH imageSliceWithoutValue_def del: fun_upd_apply)
  next
    case (Some l)
    then show ?thesis by (simp add: Cons.IH Let_def del: fun_upd_apply)
  qed
qed

lemma SetBigData_index_nonempty:
  "buckets_nonempty bd \<Longrightarrow> buckets_nonempty (SetBigData_index img ds bd)"
proof (induction ds arbitrary: bd)
  case Nil then show ?case by simp
next
  case (Cons d ds)
  let ?list = "case bd d of None \<Rightarrow> [] | Some l \<Rightarrow> l"
  show ?case
  proof (cases "length ?list = length (imageSliceWithoutValue ?list img)")
    case True
    then have eq: "SetBigData_index img (d # ds) bd = SetBigData_index img ds (bd(d \<mapsto> ?list @ [img]))"
      by (simp add: Let_def del: fun_upd_apply)
    have "buckets_nonempty (bd(d \<mapsto> ?list @ [img]))"
      by (rule buckets_nonempty_upd[OF Cons.prems]) simp
    from Cons.IH[OF this] show ?thesis unfolding eq .
  next
    case False
    then have eq: "SetBigData_index img (d # ds) bd = SetBigData_index img ds bd"
      by (simp add: Let_def del: fun_upd_apply)
    from Cons.IH[OF Cons.prems] show ?thesis unfolding eq .
  qed
qed

lemma Load_loop_buckets:
  "Load_loop E rw ps (h, ids, idlist, names, digests, ss) = Inr (h', ids', idlist', names', digests', ss')
   \<Longrightarrow> buckets_nonempty digests \<Longrightarrow> buckets_nonempty digests'"
proof (induction ps arbitrary: h ids idlist names digests ss)
  case Nil then show ?case by simp
next
  case (Cons p ps)
  obtain h1 ss1 where c: "Load_conflicts names (Names (h p)) (h, ss) = (h1, ss1)"
    by (cases "Load_conflicts names (Names (h p)) (h, ss)")
  with Cons.prems(1) obtain i where i: "recomputeDigests E (h1 p) = Inr i"
    by (cases "recomputeDigests E (h1 p)") auto
  from Cons.prems(1) c i have
    "Load_loop E rw ps (h1(p := i\<lparr>ReadOnly := \<not> rw\<rparr>), ids(ID (h p) \<mapsto> p), idlist @ [ID (h p)],
        bind_names p (Names i) names, index_digests p (Digests i) digests, ss1)
      = Inr (h', ids', idlist', names', digests', ss')" by simp
  from Cons.IH[OF this index_digests_nonempty[OF Cons.prems(2)]] show ?case .
qed

lemma Load_buckets:
  assumes "buckets_nonempty (bydigest r)"
  shows "buckets_nonempty (bydigest (snd (Load E r)))"
proof (cases "imagesjson r")
  case Unreadable
  then show ?thesis using assms by (simp add: Load_def)
next
  case (Garbled l)
  then show ?thesis by (simp add: Load_def Let_def buckets_nonempty_def)
next
  case Missing
  then show ?thesis by (simp add: Load_def Let_def buckets_nonempty_def)
next
  case Blank
  then show ?thesis by (simp add: Load_def Let_def buckets_nonempty_def)
next
  case (Json imgs)
  let ?L = "Load_loop E (IsReadWrite r) [nextptr r..<nextptr r + length imgs]
             (alloc (heap r) (nextptr r) imgs, Map.empty, [], Map.empty, Map.empty, False)"
  show ?thesis
  proof (cases ?L)
    case (Inl e)
    then show ?thesis using assms by (simp add: Load_parsed[OF disjI1[OF Json]])
  next
    case (Inr st)
    obtain h ids idlist names digests ss where st: "st = (h, ids, idlist, names, digests, ss)"
      by (cases st)
    have e: "buckets_nonempty Map.empty" by (simp add: buckets_nonempty_def)
    from Load_loop_buckets[OF Inr[unfolded st] e] have "buckets_nonempty digests" .
    then show ?thesis using assms
      by (simp add: Load_parsed[OF disjI1[OF Json]] Inr st Save_fields)
  qed
qed

lemma Create_buckets:
  assumes "buckets_nonempty (bydigest r)"
    and "Create E r iD names layer metadata created dg = Some (res, r')"
  shows "buckets_nonempty (bydigest r')"
  using Create_result[OF assms(2)] assms(1) index_digests_nonempty by auto

lemma Delete_buckets:
  assumes "buckets_nonempty (bydigest r)" and "Delete E r iD = (res, r')"
  shows "buckets_nonempty (bydigest r')"
  using Delete_result[OF assms(2)] assms(1) Delete_digests_nonempty by auto

lemma updateNames_buckets:
  "bydigest (snd (updateNames E r iD names op)) = bydigest r"
  by (auto simp: updateNames_def Let_def Save_fields split: option.splits sum.splits prod.splits)

lemma SetBigData_buckets:
  assumes "buckets_nonempty (bydigest r)" and "SetBigData E r iD key data f = (res, r')"
  shows "buckets_nonempty (bydigest r')"
  using SetBigData_result[OF assms(2)] assms(1)
  by (auto simp: SetBigData_prune_eq Delete_digests_nonempty SetBigData_index_nonempty)

lemma copyImage_id: "copyImage i = i"
  by (simp add: copyImage_def)

text \<open>
  Claim C9. In a store whose by-digest index holds no empty bucket (as after \<^verbatim>\<open>Load\<close>,
  and kept by \<^verbatim>\<open>Create\<close>, \<^verbatim>\<open>Delete\<close>, \<^verbatim>\<open>updateNames\<close> and \<^verbatim>\<open>SetBigData\<close>: the
  lemmas above), \<^verbatim>\<open>ByDigest\<close> returns the image-unknown error for every digest under
  which no image is indexed, never a successful empty list, and for a digest with at
  least one indexed image it returns the copies of exactly the images of that bucket, in
  the bucket's order: the records the bucket points to, by value (a copy has every field
  of the record it is taken from).
\<close>

theorem C9_ByDigest:
  assumes "buckets_nonempty (bydigest r)"
  shows "((\<forall>l. bydigest r d = Some l \<longrightarrow> l = []) \<longrightarrow> ByDigest r d = Inl ErrImageUnknown)
       \<and> ByDigest r d \<noteq> Inr []
       \<and> (\<forall>l. bydigest r d = Some l \<and> l \<noteq> []
             \<longrightarrow> ByDigest r d = Inr (map (heap r) l))"
  using assms
  by (cases "bydigest r d")
     (auto simp: ByDigest_def copyImageSlice_def copyImage_id buckets_nonempty_def)


lemma manifest_a_is_manifest: "bigDataNameIsManifest ''manifest-a''"
  by (simp add: bigDataNameIsManifest_def ImageDigestManifestBigDataNamePrefix_def)

lemma manifest_b_is_manifest: "bigDataNameIsManifest ''manifest-b''"
  by (simp add: bigDataNameIsManifest_def ImageDigestManifestBigDataNamePrefix_def)

lemma ex_manifests_store_loaded:
  "Load ex_extern (emptyStore\<lparr>imagesjson := Json [json_fields ex_image_m]\<rparr>)
     = (None, ex_manifests_store)"
  by (simp add: Load_def Let_def emptyStore_def ex_manifests_store_def ex_image_m_def
        zeroImage_def json_fields_def recomputeDigests_def ex_extern_def upt_rec
        IsReadWrite_def Locked_def NewTruncIndex_def truncindex_Add_def
        manifest_a_is_manifest manifest_b_is_manifest)

theorem C9_ByDigest_witness:
  "buckets_nonempty (bydigest ex_manifests_store)
   \<and> ByDigest ex_manifests_store ''sha256:1'' = Inr [ex_image_m]
   \<and> ByDigest ex_manifests_store ''sha256:9'' = Inl ErrImageUnknown"
proof -
  have b: "buckets_nonempty (bydigest ex_manifests_store)"
    by (simp add: buckets_nonempty_def ex_manifests_store_def emptyStore_def)
  have "bydigest ex_manifests_store ''sha256:1'' = Some [0]"
       "bydigest ex_manifests_store ''sha256:9'' = None"
       "heap ex_manifests_store 0 = ex_image_m"
    by (simp_all add: ex_manifests_store_def emptyStore_def)
  with C9_ByDigest[OF b, of "''sha256:1''"] C9_ByDigest[OF b, of "''sha256:9''"] b
  show ?thesis by simp
qed

subsection \<open>SetBigData without a digest callback\<close>

lemma manifest_key_nonempty: "bigDataNameIsManifest key \<Longrightarrow> key \<noteq> []"
  by (auto simp: bigDataNameIsManifest_def ImageDigestManifestBigDataNamePrefix_def)

text \<open>
  Claim C10, as amended. For every \<^verbatim>\<open>SetBigData\<close> call on an existing image, in a
  session that may write, where the key has the \<open>manifest\<close> prefix and no digest function
  is supplied: the call fails with the digest-unknown error when the image's blob
  directory could be created, and with the error of creating it otherwise; in both cases
  no blob file is written and the image record, the list, the indices and the snapshot
  are as before (only the blob directory may have been created).
\<close>

theorem C10_SetBigData_no_callback:
  assumes "bigDataNameIsManifest key" and "IsReadWrite r" and "lookup r iD = Some img"
  shows "SetBigData E r iD key data None =
           (if MkdirAll_datadir_ok E
            then (Some ErrDigestUnknown, r\<lparr>datadirs := insert (ID (heap r img)) (datadirs r)\<rparr>)
            else (Some ErrIO, r))
       \<and> blobs (snd (SetBigData E r iD key data None)) = blobs r
       \<and> heap (snd (SetBigData E r iD key data None)) = heap r
       \<and> images (snd (SetBigData E r iD key data None)) = images r
       \<and> idindex (snd (SetBigData E r iD key data None)) = idindex r
       \<and> byid (snd (SetBigData E r iD key data None)) = byid r
       \<and> byname (snd (SetBigData E r iD key data None)) = byname r
       \<and> bydigest (snd (SetBigData E r iD key data None)) = bydigest r
       \<and> imagesjson (snd (SetBigData E r iD key data None)) = imagesjson r"
  using assms manifest_key_nonempty[OF assms(1)]
  by (simp add: SetBigData_def SetBigData_digest_def Let_def)

theorem C10_SetBigData_no_callback_witness:
  "bigDataNameIsManifest ''manifest'' \<and> IsReadWrite ex_one_image
   \<and> lookup ex_one_image ''a'' = Some 0
   \<and> SetBigData ex_extern ex_one_image ''a'' ''manifest'' [1, 2, 3] None
       = (Some ErrDigestUnknown, ex_one_image\<lparr>datadirs := {''a''}\<rparr>)"
proof -
  have rw: "IsReadWrite ex_one_image" by (simp add: IsReadWrite_def ex_one_image_def emptyStore_def)
  have lk: "lookup ex_one_image ''a'' = Some 0"
    by (simp add: lookup_def ex_one_image_def emptyStore_def)
  have "heap ex_one_image 0 = ex_image_a" "datadirs ex_one_image = {}" "MkdirAll_datadir_ok ex_extern"
    by (simp_all add: ex_one_image_def emptyStore_def ex_extern_def)
  with C10_SetBigData_no_callback[OF manifest_is_manifest rw lk, of ex_extern "[1, 2, 3]"] rw lk
  show ?thesis by (simp add: manifest_is_manifest ex_image_a_def)
qed

text \<open>
  The claim as stated fails when the blob directory cannot be created: \<^verbatim>\<open>MkdirAll\<close> runs
  before the callback is looked at, and its error is the one returned.
\<close>

theorem C10_mkdir_counterexample:
  "bigDataNameIsManifest ''manifest'' \<and> lookup ex_one_image ''a'' = Some 0
   \<and> SetBigData (ex_extern\<lparr>MkdirAll_datadir_ok := False\<rparr>) ex_one_image ''a'' ''manifest'' [1, 2, 3] None
       = (Some ErrIO, ex_one_image)"
  by (simp add: SetBigData_def SetBigData_digest_def manifest_is_manifest lookup_def
        IsReadWrite_def ex_one_image_def emptyStore_def ex_extern_def)

subsection \<open>Delete\<close>

lemma Delete_scan_None:
  "Delete_scan h iD xs k acc = None \<longleftrightarrow> acc = None \<and> (\<forall>p\<in>set xs. ID (h p) \<noteq> iD)"
  by (induction xs arbitrary: k acc) auto

lemma Delete_scan_Some:
  "Delete_scan h iD xs k acc = Some i \<Longrightarrow>
     (acc = Some i \<and> (\<forall>p\<in>set xs. ID (h p) \<noteq> iD))
     \<or> (k \<le> i \<and> i - k < length xs \<and> ID (h (xs ! (i - k))) = iD)"
proof (induction xs arbitrary: k acc)
  case Nil then show ?case by simp
next
  case (Cons x xs)
  from Cons.prems have
    "Delete_scan h iD xs (Suc k) (if ID (h x) = iD then Some k else acc) = Some i" by simp
  from Cons.IH[OF this] show ?case
  proof
    assume a: "(if ID (h x) = iD then Some k else acc) = Some i \<and> (\<forall>p\<in>set xs. ID (h p) \<noteq> iD)"
    show ?thesis
    proof (cases "ID (h x) = iD")
      case True
      with a have "i = k" by simp
      with True show ?thesis by simp
    next
      case False
      with a show ?thesis by simp
    qed
  next
    assume a: "Suc k \<le> i \<and> i - Suc k < length xs \<and> ID (h (xs ! (i - Suc k))) = iD"
    then obtain j where j: "i - k = Suc j" "i - Suc k = j" by (cases "i - k") auto
    with a show ?thesis by auto
  qed
qed

lemma remove_index_unique:
  assumes "distinct (map f xs)" and "i < length xs"
  shows "\<forall>p\<in>set (take i xs @ drop (Suc i) xs). f p \<noteq> f (xs ! i)"
proof -
  have "xs = take i xs @ xs ! i # drop (Suc i) xs" using assms(2) by (rule id_take_nth_drop)
  then have "distinct (map f (take i xs @ xs ! i # drop (Suc i) xs))" using assms(1) by simp
  then have "f (xs ! i) \<notin> f ` set (take i xs)" "f (xs ! i) \<notin> f ` set (drop (Suc i) xs)"
    by auto
  then show ?thesis by (metis Un_iff imageI set_append)
qed

lemma Delete_list:
  assumes "distinct (map (\<lambda>p. ID (h p)) xs)"
  shows "\<forall>p\<in>set (case Delete_scan h iD xs 0 None of
                    None \<Rightarrow> xs
                  | Some i \<Rightarrow> if i = length xs - 1 then take (length xs - 1) xs
                              else take i xs @ drop (i + 1) xs). ID (h p) \<noteq> iD"
proof (cases "Delete_scan h iD xs 0 None")
  case None
  then have "\<forall>p\<in>set xs. ID (h p) \<noteq> iD" by (simp add: Delete_scan_None)
  then show ?thesis unfolding None option.case .
next
  case (Some i)
  from Delete_scan_Some[OF Some] have i: "i < length xs" "ID (h (xs ! i)) = iD" by auto
  have eq: "(if i = length xs - 1 then take (length xs - 1) xs else take i xs @ drop (i + 1) xs)
          = take i xs @ drop (Suc i) xs" using i(1) by auto
  from remove_index_unique[OF assms i(1)] i(2) show ?thesis
    unfolding Some option.case eq by simp
qed

lemma filter_filter_same: "filter P (filter P xs) = filter P xs"
  by (induction xs) auto

lemma Delete_digests_apply:
  "Delete_digests img ds bd d =
     (if d \<in> set ds
      then (if imageSliceWithoutValue (case bd d of None \<Rightarrow> [] | Some l \<Rightarrow> l) img = [] then None
            else Some (imageSliceWithoutValue (case bd d of None \<Rightarrow> [] | Some l \<Rightarrow> l) img))
      else bd d)"
proof (induction ds arbitrary: bd)
  case Nil then show ?case by simp
next
  case (Cons x ds)
  let ?pl = "imageSliceWithoutValue (case bd x of None \<Rightarrow> [] | Some l \<Rightarrow> l) img"
  show ?case
  proof (cases "?pl = []")
    case True
    then have eq: "Delete_digests img (x # ds) bd = Delete_digests img ds (bd(x := None))"
      by (simp del: fun_upd_apply)
    show ?thesis unfolding eq Cons.IH using True
      by (auto simp: imageSliceWithoutValue_def)
  next
    case False
    then have eq: "Delete_digests img (x # ds) bd = Delete_digests img ds (bd(x \<mapsto> ?pl))"
      by (simp add: Let_def del: fun_upd_apply)
    show ?thesis unfolding eq Cons.IH using False
      by (auto simp: imageSliceWithoutValue_def filter_filter_same)
  qed
qed

lemma Delete_digests_removes:
  assumes "\<forall>d l. bd d = Some l \<and> img \<in> set l \<longrightarrow> d \<in> set ds"
  shows "\<forall>d l. Delete_digests img ds bd d = Some l \<longrightarrow> img \<notin> set l"
proof (intro allI impI)
  fix d l assume a: "Delete_digests img ds bd d = Some l"
  show "img \<notin> set l"
  proof (cases "d \<in> set ds")
    case True
    with a show ?thesis
      by (auto simp: Delete_digests_apply imageSliceWithoutValue_def split: if_splits)
  next
    case False
    with a have "bd d = Some l" by (simp add: Delete_digests_apply)
    with assms False show ?thesis by blast
  qed
qed

text \<open>
  Claim C4, as amended. In a store of a session that may write, in which the IDs of the
  list are distinct, the by-ID map sends each ID to a record with that ID, and the image
  is indexed under its own digests only: after \<^verbatim>\<open>Delete(id)\<close> succeeds, the image's ID
  is absent from the by-ID map and from the list, each of its former names is absent
  from the by-name map, and the image is in no bucket of the by-digest index. \<open>id\<close> itself
  no longer resolves through the by-ID map, so \<^verbatim>\<open>Exists(id)\<close> holds afterwards exactly
  when \<open>id\<close> is the name of a remaining image or the prefix index still resolves it to an
  ID of the by-ID map.
\<close>

theorem C4_Delete:
  assumes del: "Delete E r iD = (None, r')"
    and img: "lookup r iD = Some img"
    and ids: "distinct (map (\<lambda>p. ID (heap r p)) (images r))"
    and byid_ok: "\<forall>i p. byid r i = Some p \<longrightarrow> ID (heap r p) = i"
    and buckets: "\<forall>d l. bydigest r d = Some l \<and> img \<in> set l \<longrightarrow> d \<in> set (Digests (heap r img))"
  shows "byid r' (ID (heap r img)) = None
       \<and> (\<forall>p\<in>set (images r'). ID (heap r' p) \<noteq> ID (heap r img))
       \<and> (\<forall>n\<in>set (Names (heap r img)). byname r' n = None)
       \<and> (\<forall>d l. bydigest r' d = Some l \<longrightarrow> img \<notin> set l)
       \<and> byid r' iD = None
       \<and> (Exists r' iD \<longleftrightarrow>
            byname r' iD \<noteq> None
            \<or> (\<exists>longid. truncindex_Get (idindex r') iD = Some longid \<and> byid r' longid \<noteq> None))"
proof -
  from Delete_result[OF del] img have
    h: "heap r' = heap r" and
    bi: "byid r' = (byid r)(ID (heap r img) := None)" and
    bn: "byname r' = unbind_names (Names (heap r img)) (byname r)" and
    bd: "bydigest r' = Delete_digests img (Digests (heap r img)) (bydigest r)" and
    im: "images r' =
           (case Delete_scan (heap r) (ID (heap r img)) (images r) 0 None of
              None \<Rightarrow> images r
            | Some i \<Rightarrow>
                if i = length (images r) - 1 then take (length (images r) - 1) (images r)
                else take i (images r) @ drop (i + 1) (images r))"
    by auto
  have 1: "byid r' (ID (heap r img)) = None" by (simp add: bi)
  have 2: "\<forall>p\<in>set (images r'). ID (heap r' p) \<noteq> ID (heap r img)"
    unfolding h im by (rule Delete_list[OF ids])
  have 3: "\<forall>n\<in>set (Names (heap r img)). byname r' n = None"
    by (simp add: bn unbind_names_eq)
  have 4: "\<forall>d l. bydigest r' d = Some l \<longrightarrow> img \<notin> set l"
    unfolding bd by (rule Delete_digests_removes[OF buckets])
  have 5: "byid r' iD = None"
  proof (cases "byid r iD")
    case None
    then show ?thesis by (simp add: bi)
  next
    case (Some q)
    with img have "q = img" by (simp add: lookup_def)
    with Some byid_ok have "ID (heap r img) = iD" by blast
    then show ?thesis by (simp add: bi)
  qed
  have 6: "Exists r' iD \<longleftrightarrow>
            byname r' iD \<noteq> None
            \<or> (\<exists>longid. truncindex_Get (idindex r') iD = Some longid \<and> byid r' longid \<noteq> None)"
    using 5 by (auto simp: Exists_def lookup_def split: option.splits)
  from 1 2 3 4 5 6 show ?thesis by blast
qed


lemma ex_name_is_id_loaded:
  "Load ex_extern
     (emptyStore\<lparr>imagesjson := Json [zeroImage\<lparr>ID := ''a''\<rparr>, zeroImage\<lparr>ID := ''b'', Names := [''a'']\<rparr>]\<rparr>)
     = (None, ex_name_is_id)"
  by (simp add: Load_def Let_def emptyStore_def ex_name_is_id_def zeroImage_def
        recomputeDigests_def ex_extern_def upt_rec IsReadWrite_def Locked_def NewTruncIndex_def
        truncindex_Add_def fun_upd_twist)

lemma ex_Delete_m:
  "fst (Delete ex_extern ex_manifests_store ''m'') = None"
  by (simp add: Delete_def RemoveAll_datadir_def Let_def lookup_def IsReadWrite_def Locked_def
        Save_def Touch_def ex_manifests_store_def emptyStore_def ex_image_m_def zeroImage_def
        ex_extern_def split: prod.splits option.splits)

theorem C4_Delete_witness:
  "Delete ex_extern ex_manifests_store ''m'' = (None, snd (Delete ex_extern ex_manifests_store ''m''))
   \<and> lookup ex_manifests_store ''m'' = Some 0
   \<and> distinct (map (\<lambda>p. ID (heap ex_manifests_store p)) (images ex_manifests_store))
   \<and> byid (snd (Delete ex_extern ex_manifests_store ''m'')) ''m'' = None
   \<and> bydigest (snd (Delete ex_extern ex_manifests_store ''m'')) ''sha256:1'' \<noteq> Some [0]"
proof -
  let ?r' = "snd (Delete ex_extern ex_manifests_store ''m'')"
  have del: "Delete ex_extern ex_manifests_store ''m'' = (None, ?r')"
    using ex_Delete_m by (metis prod.collapse)
  have lk: "lookup ex_manifests_store ''m'' = Some 0"
    by (simp add: lookup_def ex_manifests_store_def emptyStore_def)
  have h0: "heap ex_manifests_store 0 = ex_image_m"
    by (simp add: ex_manifests_store_def emptyStore_def)
  have ids: "distinct (map (\<lambda>p. ID (heap ex_manifests_store p)) (images ex_manifests_store))"
    by (simp add: ex_manifests_store_def emptyStore_def)
  have ok: "\<forall>i p. byid ex_manifests_store i = Some p \<longrightarrow> ID (heap ex_manifests_store p) = i"
    by (simp add: ex_manifests_store_def emptyStore_def ex_image_m_def)
  have bk: "\<forall>d l. bydigest ex_manifests_store d = Some l \<and> 0 \<in> set l
              \<longrightarrow> d \<in> set (Digests (heap ex_manifests_store 0))"
    by (simp add: ex_manifests_store_def emptyStore_def ex_image_m_def)
  have idm: "ID (heap ex_manifests_store 0) = ''m''" by (simp add: h0 ex_image_m_def)
  note th = C4_Delete[OF del lk ids ok bk, unfolded idm]
  from th have "byid ?r' ''m'' = None" by blast
  moreover from th have "\<forall>d l. bydigest ?r' d = Some l \<longrightarrow> 0 \<notin> set l" by blast
  then have "bydigest ?r' ''sha256:1'' = Some [0] \<longrightarrow> (0::nat) \<notin> set [0]" by blast
  then have "bydigest ?r' ''sha256:1'' \<noteq> Some [0]" by simp
  ultimately show ?thesis using del lk ids by blast
qed

text \<open>
  The claim as stated fails when the ID of the deleted image is also a name of another
  image: \<^verbatim>\<open>Delete("a")\<close> removes the image whose ID is \<open>a\<close>, and \<^verbatim>\<open>Exists("a")\<close> then
  finds the image named \<open>a\<close>.
\<close>

theorem C4_Exists_counterexample:
  "lookup ex_name_is_id ''a'' = Some 0
   \<and> fst (Delete ex_extern ex_name_is_id ''a'') = None
   \<and> Exists (snd (Delete ex_extern ex_name_is_id ''a'')) ''a''"
  by (simp add: Delete_def RemoveAll_datadir_def Let_def lookup_def Exists_def IsReadWrite_def
        Locked_def Save_def Touch_def ex_name_is_id_def emptyStore_def zeroImage_def ex_extern_def
        split: prod.splits option.splits)

subsection \<open>updateNames\<close>

lemma ex_two_images_loaded:
  "Load ex_extern (emptyStore\<lparr>imagesjson := Json [ex_image_a, zeroImage\<lparr>ID := ''b''\<rparr>]\<rparr>)
     = (None, ex_two_images)"
  by (simp add: Load_def Let_def emptyStore_def ex_two_images_def ex_image_a_def zeroImage_def
        recomputeDigests_def ex_extern_def upt_rec IsReadWrite_def Locked_def NewTruncIndex_def
        truncindex_Add_def fun_eq_iff)

lemma dedupe_from_cong: "set s1 = set s2 \<Longrightarrow> dedupe_from s1 xs = dedupe_from s2 xs"
proof (induction xs arbitrary: s1 s2)
  case Nil then show ?case by simp
next
  case (Cons x xs)
  from Cons.prems have mem: "x \<in> set s1 \<longleftrightarrow> x \<in> set s2" by simp
  from Cons.prems have "set (x # s1) = set (x # s2)" by simp
  from Cons.IH[OF this] Cons.IH[OF Cons.prems] mem show ?case by simp
qed

lemma dedupe_from_append:
  "dedupe_from s (xs @ ys) = dedupe_from s xs @ dedupe_from (xs @ s) ys"
proof (induction xs arbitrary: s)
  case Nil then show ?case by simp
next
  case (Cons x xs)
  show ?case
  proof (cases "x \<in> set s")
    case True
    then have "set (x # xs @ s) = set (xs @ s)" by auto
    from dedupe_from_cong[OF this] True show ?thesis by (simp add: Cons.IH)
  next
    case False
    have "set (xs @ x # s) = set (x # xs @ s)" by auto
    from dedupe_from_cong[OF this] False show ?thesis by (simp add: Cons.IH)
  qed
qed

lemma dedupe_from_dedupe_from:
  "dedupe_from s (dedupe_from s' ys) = dedupe_from (s @ s') ys"
proof (induction ys arbitrary: s s')
  case Nil then show ?case by simp
next
  case (Cons y ys)
  show ?case
  proof (cases "y \<in> set s'")
    case True
    then show ?thesis by (simp add: Cons.IH)
  next
    case ns': False
    show ?thesis
    proof (cases "y \<in> set s")
      case True
      then have "set (s @ y # s') = set (s @ s')" by auto
      from dedupe_from_cong[OF this] True ns' show ?thesis by (simp add: Cons.IH)
    next
      case False
      have "set ((y # s) @ y # s') = set (y # s @ s')" by auto
      from dedupe_from_cong[OF this] False ns' show ?thesis by (simp add: Cons.IH)
    qed
  qed
qed

lemma dedupeNames_append_dedupeNames:
  "dedupeNames (xs @ dedupeNames ys) = dedupeNames (xs @ ys)"
  by (simp add: dedupeNames_def dedupe_from_append dedupe_from_dedupe_from)

lemma dedupeNames_Cons: "dedupeNames (x # xs) = x # dedupe_from [x] xs"
  by (simp add: dedupeNames_def)

lemma distinct_dedupe_from: "distinct (dedupe_from s xs) \<and> set (dedupe_from s xs) \<inter> set s = {}"
  by (induction s xs rule: dedupe_from.induct) (auto simp: set_dedupe_from)

lemma distinct_dedupeNames: "distinct (dedupeNames xs)"
  by (simp add: dedupeNames_def distinct_dedupe_from)

lemma fold_addNameToHistory:
  "ns \<noteq> [] \<Longrightarrow>
     fold (\<lambda>n H. dedupeNames (n # H)) ns H = dedupeNames (rev ns @ H)"
proof (induction ns arbitrary: H)
  case Nil then show ?case by simp
next
  case (Cons x ns)
  show ?case
  proof (cases "ns = []")
    case True then show ?thesis by simp
  next
    case False
    from Cons.IH[OF False, of "dedupeNames (x # H)"] show ?thesis
      by (simp add: dedupeNames_append_dedupeNames)
  qed
qed

lemma updateNames_loop_result:
  "updateNames_loop img ns (h, bn) = (h', bn') \<Longrightarrow>
     bn' = (\<lambda>n. if n \<in> set ns then Some img else bn n)
     \<and> NamesHistory (h' img) = fold (\<lambda>n H. dedupeNames (n # H)) ns (NamesHistory (h img))
     \<and> (\<forall>q. q \<noteq> img \<longrightarrow>
           h' q = (h q)\<lparr>Names := filter (\<lambda>n. \<not> (n \<in> set ns \<and> bn n = Some q)) (Names (h q))\<rparr>)"
proof (induction ns arbitrary: h bn)
  case Nil
  then show ?case by auto
next
  case (Cons x ns)
  define h1 where "h1 = (case bn x of Some otherImage \<Rightarrow> removeName h otherImage x | None \<Rightarrow> h)"
  define h2 where "h2 = h1(img := addNameToHistory (h1 img) x)"
  from Cons.prems have step: "updateNames_loop img ns (h2, bn(x \<mapsto> img)) = (h', bn')"
    by (simp add: h1_def h2_def Let_def)
  note IH = Cons.IH[OF step]
  have h1q: "h1 q = (h q)\<lparr>Names := filter (\<lambda>n. \<not> (n = x \<and> bn x = Some q)) (Names (h q))\<rparr>" for q
  proof (cases "bn x = Some q")
    case True
    then show ?thesis by (simp add: h1_def removeName_def stringSliceWithoutValue_def)
  next
    case False
    then show ?thesis
      by (cases "bn x") (auto simp: h1_def removeName_def)
  qed
  have hist1: "NamesHistory (h1 img) = NamesHistory (h img)" by (simp add: h1q)
  have hist2: "NamesHistory (h2 img) = dedupeNames (x # NamesHistory (h img))"
    by (simp add: h2_def addNameToHistory_def hist1)
  have A: "bn' = (\<lambda>n. if n \<in> set (x # ns) then Some img else bn n)"
    using IH by (auto intro!: ext)
  have B: "NamesHistory (h' img) = fold (\<lambda>n H. dedupeNames (n # H)) (x # ns) (NamesHistory (h img))"
    using IH hist2 by simp
  have C: "\<forall>q. q \<noteq> img \<longrightarrow>
           h' q = (h q)\<lparr>Names := filter (\<lambda>n. \<not> (n \<in> set (x # ns) \<and> bn n = Some q)) (Names (h q))\<rparr>"
  proof (intro allI impI)
    fix q assume q: "q \<noteq> img"
    with IH have "h' q = (h2 q)\<lparr>Names := filter (\<lambda>n. \<not> (n \<in> set ns \<and> (bn(x \<mapsto> img)) n = Some q)) (Names (h2 q))\<rparr>"
      by blast
    also have "h2 q = h1 q" using q by (simp add: h2_def)
    finally have "h' q = (h q)\<lparr>Names := filter (\<lambda>n. \<not> (n \<in> set ns \<and> (bn(x \<mapsto> img)) n = Some q))
                     (filter (\<lambda>n. \<not> (n = x \<and> bn x = Some q)) (Names (h q)))\<rparr>"
      by (simp add: h1q)
    moreover have "filter (\<lambda>n. \<not> (n \<in> set ns \<and> (bn(x \<mapsto> img)) n = Some q))
                     (filter (\<lambda>n. \<not> (n = x \<and> bn x = Some q)) xs)
        = filter (\<lambda>n. \<not> (n \<in> set (x # ns) \<and> bn n = Some q)) xs" for xs
      using q by (simp del: set_simps fun_upd_apply) (intro filter_cong, auto)
    ultimately show "h' q = (h q)\<lparr>Names := filter (\<lambda>n. \<not> (n \<in> set (x # ns) \<and> bn n = Some q)) (Names (h q))\<rparr>"
      by simp
  qed
  from A B C show ?case by blast
qed

text \<open>
  Claim C5. In a store of a session that may write, for an existing image whose names
  are bound to none but itself in the by-name index, and an operation for which
  \<^verbatim>\<open>applyNameOperation\<close> returns the new name list: \<^verbatim>\<open>updateNames\<close> makes that list the
  image's \<open>Names\<close>, binds each of its names to the image, removes each of them from the
  \<open>Names\<close> of the other image it was bound to, and puts each of them, in turn, at the
  front of the image's \<open>NamesHistory\<close> (duplicates dropped, so the last name of the list
  ends up first); it then returns what \<^verbatim>\<open>Save\<close> returns.
\<close>

theorem C5_updateNames:
  assumes rw: "IsReadWrite r"
    and img: "lookup r iD = Some img"
    and ap: "applyNameOperation E (Names (heap r img)) names op = Inr names'"
    and own: "\<forall>n\<in>set (Names (heap r img)). \<forall>q. byname r n = Some q \<longrightarrow> q = img"
  shows "\<exists>r1. updateNames E r iD names op = Save E r1
           \<and> Names (heap r1 img) = names'
           \<and> (\<forall>n\<in>set names'. byname r1 n = Some img)
           \<and> (\<forall>n\<in>set names'. \<forall>q. byname r n = Some q \<and> q \<noteq> img
                 \<longrightarrow> n \<notin> set (Names (heap r1 q)))
           \<and> NamesHistory (heap r1 img)
               = fold (\<lambda>n H. dedupeNames (n # H)) names' (NamesHistory (heap r img))
           \<and> set names' \<subseteq> set (NamesHistory (heap r1 img))
           \<and> (names' \<noteq> [] \<longrightarrow>
                 NamesHistory (heap r1 img) = dedupeNames (rev names' @ NamesHistory (heap r img))
                 \<and> hd (NamesHistory (heap r1 img)) = last names')"
proof -
  let ?old = "Names (heap r img)"
  obtain h bn where loop: "updateNames_loop img names' (heap r, unbind_names ?old (byname r)) = (h, bn)"
    by (cases "updateNames_loop img names' (heap r, unbind_names ?old (byname r))")
  let ?r1 = "r\<lparr>heap := h(img := (h img)\<lparr>Names := names'\<rparr>), byname := bn\<rparr>"
  have U: "updateNames E r iD names op = Save E ?r1"
    using rw img ap loop by (simp add: updateNames_def Let_def)
  note L = updateNames_loop_result[OF loop]
  from L have bn: "bn = (\<lambda>n. if n \<in> set names' then Some img else unbind_names ?old (byname r) n)"
    by blast
  from L have hist: "NamesHistory (h img)
      = fold (\<lambda>n H. dedupeNames (n # H)) names' (NamesHistory (heap r img))"
    by blast
  from L have others: "\<And>q. q \<noteq> img \<Longrightarrow>
      h q = (heap r q)\<lparr>Names := filter (\<lambda>n. \<not> (n \<in> set names' \<and> unbind_names ?old (byname r) n = Some q))
                                 (Names (heap r q))\<rparr>" by blast
  have 1: "Names (heap ?r1 img) = names'" by simp
  have 2: "\<forall>n\<in>set names'. byname ?r1 n = Some img" by (simp add: bn)
  have 3: "\<forall>n\<in>set names'. \<forall>q. byname r n = Some q \<and> q \<noteq> img \<longrightarrow> n \<notin> set (Names (heap ?r1 q))"
  proof (intro ballI allI impI)
    fix n q assume n: "n \<in> set names'" and q: "byname r n = Some q \<and> q \<noteq> img"
    with own have "n \<notin> set ?old" by blast
    with q have "unbind_names ?old (byname r) n = Some q" by (simp add: unbind_names_eq)
    with n others[of q] q show "n \<notin> set (Names (heap ?r1 q))" by simp
  qed
  have 4: "NamesHistory (heap ?r1 img)
      = fold (\<lambda>n H. dedupeNames (n # H)) names' (NamesHistory (heap r img))"
    by (simp add: hist)
  have 6: "names' \<noteq> [] \<longrightarrow>
                 NamesHistory (heap ?r1 img) = dedupeNames (rev names' @ NamesHistory (heap r img))
                 \<and> hd (NamesHistory (heap ?r1 img)) = last names'"
  proof
    assume ne: "names' \<noteq> []"
    have a: "NamesHistory (heap ?r1 img) = dedupeNames (rev names' @ NamesHistory (heap r img))"
      unfolding 4 by (rule fold_addNameToHistory[OF ne])
    have e: "butlast names' @ [last names'] = names'" using ne by (rule append_butlast_last_id)
    have rv: "rev names' = last names' # rev (butlast names')"
      using arg_cong[OF e, of rev] by simp
    have "hd (dedupeNames (rev names' @ NamesHistory (heap r img))) = last names'"
      by (subst rv) (simp add: dedupeNames_Cons)
    then have "hd (NamesHistory (heap ?r1 img)) = last names'"
      by (simp only: a)
    with a show "NamesHistory (heap ?r1 img) = dedupeNames (rev names' @ NamesHistory (heap r img))
                 \<and> hd (NamesHistory (heap ?r1 img)) = last names'" by blast
  qed
  have 5: "set names' \<subseteq> set (NamesHistory (heap ?r1 img))"
  proof (cases "names' = []")
    case True then show ?thesis by simp
  next
    case False
    with 6 have "NamesHistory (heap ?r1 img) = dedupeNames (rev names' @ NamesHistory (heap r img))"
      by blast
    then show ?thesis by (simp add: set_dedupeNames)
  qed
  from U 1 2 3 4 5 6 show ?thesis by blast
qed

theorem C5_updateNames_witness:
  "IsReadWrite ex_two_images \<and> lookup ex_two_images ''b'' = Some 1
   \<and> byname ex_two_images ''n'' = Some 0
   \<and> (\<exists>r1. updateNames ex_extern ex_two_images ''b'' [''n''] setNames = Save ex_extern r1
          \<and> Names (heap r1 1) = [''n''] \<and> byname r1 ''n'' = Some 1
          \<and> ''n'' \<notin> set (Names (heap r1 0))
          \<and> NamesHistory (heap r1 1) = [''n''])"
proof -
  have rw: "IsReadWrite ex_two_images" by (simp add: IsReadWrite_def ex_two_images_def emptyStore_def)
  have lk: "lookup ex_two_images ''b'' = Some 1"
    by (simp add: lookup_def ex_two_images_def emptyStore_def)
  have h1: "heap ex_two_images 1 = zeroImage\<lparr>ID := ''b''\<rparr>"
    by (simp add: ex_two_images_def emptyStore_def)
  have ap: "applyNameOperation ex_extern (Names (heap ex_two_images 1)) [''n''] setNames = Inr [''n'']"
    by (simp add: ex_extern_def)
  have own: "\<forall>n\<in>set (Names (heap ex_two_images 1)). \<forall>q. byname ex_two_images n = Some q \<longrightarrow> q = 1"
    unfolding h1 by (simp add: zeroImage_def)
  have bn: "byname ex_two_images ''n'' = Some 0" by (simp add: ex_two_images_def emptyStore_def)
  from C5_updateNames[OF rw lk ap own] obtain r1 where
    r1: "updateNames ex_extern ex_two_images ''b'' [''n''] setNames = Save ex_extern r1"
      "Names (heap r1 1) = [''n'']"
      "\<forall>n\<in>set [''n'']. byname r1 n = Some 1"
      "\<forall>n\<in>set [''n'']. \<forall>q. byname ex_two_images n = Some q \<and> q \<noteq> 1 \<longrightarrow> n \<notin> set (Names (heap r1 q))"
      "NamesHistory (heap r1 1)
         = fold (\<lambda>n H. dedupeNames (n # H)) [''n''] (NamesHistory (heap ex_two_images 1))"
    by blast
  from r1(3) have a: "byname r1 ''n'' = Some 1" by simp
  from r1(4) bn have b: "''n'' \<notin> set (Names (heap r1 0))" by simp
  from r1(5) have c: "NamesHistory (heap r1 1) = [''n'']"
    unfolding h1 by (simp add: zeroImage_def dedupeNames_def)
  from r1(1,2) a b c have "\<exists>r1. updateNames ex_extern ex_two_images ''b'' [''n''] setNames = Save ex_extern r1
          \<and> Names (heap r1 1) = [''n''] \<and> byname r1 ''n'' = Some 1
          \<and> ''n'' \<notin> set (Names (heap r1 0))
          \<and> NamesHistory (heap r1 1) = [''n'']" by blast
  with rw lk bn show ?thesis by simp
qed

subsection \<open>The digests of a record after recomputation\<close>

lemma recomputeDigests_loop_inv:
  "recomputeDigests_loop v es (vd, ds) = Inr (vd', ds') \<Longrightarrow> ds = set vd \<Longrightarrow> distinct vd \<Longrightarrow>
   (\<forall>d\<in>set vd. v d) \<Longrightarrow>
   ds' = set vd' \<and> distinct vd' \<and> (\<forall>d\<in>set vd'. v d) \<and> (\<exists>suf. vd' = vd @ suf)
   \<and> set vd' = set vd \<union> {d. \<exists>n. (n, d) \<in> set es \<and> bigDataNameIsManifest n}"
proof (induction es arbitrary: vd ds)
  case Nil
  then show ?case by auto
next
  case (Cons e es)
  obtain name d where e: "e = (name, d)" by (cases e)
  show ?case
  proof (cases "bigDataNameIsManifest name")
    case False
    with Cons.prems e have "recomputeDigests_loop v es (vd, ds) = Inr (vd', ds')" by simp
    from Cons.IH[OF this Cons.prems(2-4)] False e show ?thesis by auto
  next
    case True
    with Cons.prems e have vd: "v d" by (auto split: if_splits)
    show ?thesis
    proof (cases "d \<in> ds")
      case True
      with Cons.prems e \<open>bigDataNameIsManifest name\<close> vd
      have "recomputeDigests_loop v es (vd, ds) = Inr (vd', ds')" by simp
      from Cons.IH[OF this Cons.prems(2-4)] True e \<open>bigDataNameIsManifest name\<close> Cons.prems(2)
      show ?thesis by auto
    next
      case False
      with Cons.prems e \<open>bigDataNameIsManifest name\<close> vd
      have "recomputeDigests_loop v es (vd @ [d], insert d ds) = Inr (vd', ds')" by simp
      from Cons.IH[OF this] False e \<open>bigDataNameIsManifest name\<close> Cons.prems(2-4) vd
      show ?thesis by auto
    qed
  qed
qed

lemma recomputeDigests_invariant:
  assumes "recomputeDigests E i = Inr y"
  shows "digest_invariant E y"
proof (cases "Digest i = []")
  case True
  with assms obtain vd ds where
    l: "recomputeDigests_loop (Validate E) (mapOrder E (BigDataDigests i)) ([], {}) = Inr (vd, ds)"
    and y: "y = i\<lparr>Digest := (if vd \<noteq> [] then hd vd else []), Digests := vd\<rparr>"
    by (auto simp: recomputeDigests_def split: sum.splits)
  from recomputeDigests_loop_inv[OF l] have "distinct vd" "\<forall>d\<in>set vd. Validate E d" by auto
  then show ?thesis by (auto simp: digest_invariant_def y)
next
  case False
  with assms have v: "Validate E (Digest i)" by (auto simp: recomputeDigests_def split: if_splits)
  from assms False v obtain vd ds where
    l: "recomputeDigests_loop (Validate E) (mapOrder E (BigDataDigests i)) ([Digest i], {Digest i})
          = Inr (vd, ds)"
    and y: "y = i\<lparr>Digest := Digest i, Digests := vd\<rparr>"
    by (auto simp: recomputeDigests_def split: sum.splits)
  from recomputeDigests_loop_inv[OF l] v have
    "distinct vd" "\<forall>d\<in>set vd. Validate E d" "\<exists>suf. vd = [Digest i] @ suf" by auto
  then show ?thesis by (auto simp: digest_invariant_def y)
qed

lemma digest_invariant_fields:
  "Digest j = Digest i \<Longrightarrow> Digests j = Digests i \<Longrightarrow> digest_invariant E j = digest_invariant E i"
  by (simp add: digest_invariant_def)

lemma Load_digest_invariant:
  assumes L: "Load E r = (res, r')" and ng: "\<forall>l. imagesjson r \<noteq> Garbled l"
  shows "r' = r \<or> (\<forall>p\<in>set (images r'). digest_invariant E (heap r' p))"
proof (cases "imagesjson r = Unreadable")
  case True
  with L show ?thesis by (simp add: Load_def)
next
  case False
  define imgs where "imgs = (case imagesjson r of Json l \<Rightarrow> l | _ \<Rightarrow> [])"
  from False ng have snap:
    "imagesjson r = Json imgs \<or> ((imagesjson r = Missing \<or> imagesjson r = Blank) \<and> imgs = [])"
    by (cases "imagesjson r") (auto simp: imgs_def)
  let ?ps = "[nextptr r..<nextptr r + length imgs]"
  let ?h0 = "alloc (heap r) (nextptr r) imgs"
  let ?L = "Load_loop E (IsReadWrite r) ?ps (?h0, Map.empty, [], Map.empty, Map.empty, False)"
  show ?thesis
  proof (cases ?L)
    case (Inl e)
    with L show ?thesis by (simp add: Load_parsed[OF snap])
  next
    case (Inr st)
    obtain h ids idlist names digests ss where st: "st = (h, ids, idlist, names, digests, ss)"
      by (cases st)
    have dps: "distinct ?ps" by simp
    from Load_loop_inv[OF dps Inr[unfolded st]] have
      D: "\<forall>p\<in>set ?ps. \<exists>y. recomputeDigests E (?h0 p) = Inr y \<and>
            h p = y\<lparr>Names := Names (h p), ReadOnly := \<not> IsReadWrite r\<rparr>" by blast
    have inv: "\<forall>p\<in>set ?ps. digest_invariant E (h p)"
    proof
      fix p assume "p \<in> set ?ps"
      with D obtain y where y: "recomputeDigests E (?h0 p) = Inr y"
        "h p = y\<lparr>Names := Names (h p), ReadOnly := \<not> IsReadWrite r\<rparr>" by blast
      have "Digest (h p) = Digest y" "Digests (h p) = Digests y" by (subst y(2), simp)+
      from digest_invariant_fields[OF this] recomputeDigests_invariant[OF y(1)]
      show "digest_invariant E (h p)" by simp
    qed
    let ?r1 = "r\<lparr>heap := h, nextptr := nextptr r + length imgs, images := ?ps,
                 idindex := NewTruncIndex idlist, byid := ids, byname := names, bydigest := digests\<rparr>"
    from L have "r' = r \<or> r' = ?r1 \<or> r' = snd (Save E ?r1)"
      by (auto simp: Load_parsed[OF snap] Inr st split: if_splits)
    then show ?thesis using inv by (auto simp: Save_fields)
  qed
qed

lemma Create_digest_invariant:
  assumes "Create E r iD names layer metadata created dg = Some (res, r')"
    and "\<forall>p\<in>set (images r). digest_invariant E (heap r p)"
  shows "\<forall>p\<in>set (images r'). digest_invariant E (heap r' p)"
  using Create_result[OF assms(1)] assms(2) recomputeDigests_invariant by auto

lemma SetBigData_digest_invariant:
  assumes S: "SetBigData E r iD key data f = (res, r')"
    and I: "\<forall>p\<in>set (images r). digest_invariant E (heap r p)"
  shows "\<forall>p\<in>set (images r'). digest_invariant E (heap r' p)"
proof
  fix p assume p: "p \<in> set (images r')"
  from SetBigData_result[OF S] consider
    (early) "heap r' = heap r" "images r' = images r"
  | (recfail) img newDigest where "images r' = images r"
      "heap r' = (heap r)(img := SetBigData_cache (heap r img) key data newDigest)"
  | (recok) img i1 i2 where "images r' = images r" "recomputeDigests E i1 = Inr i2"
      "heap r' = (heap r)(img := i2)"
    by auto
  then show "digest_invariant E (heap r' p)"
  proof cases
    case early
    with p I show ?thesis by simp
  next
    case recfail
    with p I have "digest_invariant E (heap r p)" by simp
    with recfail show ?thesis
      by (cases "p = img") (simp_all add: digest_invariant_def)
  next
    case recok
    with p I have "digest_invariant E (heap r p)" by simp
    with recok recomputeDigests_invariant[OF recok(2)] show ?thesis
      by (cases "p = img") simp_all
  qed
qed


text \<open>
  Where digests are recomputed, every image of the store has the digest invariant
  afterwards: \<open>Digests\<close> has no duplicates, each of its elements passes validation, and
  a non-empty \<open>Digest\<close> is an element of \<open>Digests\<close> and its first one.
  \<^item> \<^verbatim>\<open>Load\<close>, unless \<^verbatim>\<open>json.Unmarshal\<close> failed on a non-empty file (the loop that
    recomputes the digests is then skipped): either the store is left as it was, or
    every image of the new list has the invariant;
  \<^item> \<^verbatim>\<open>Create\<close> and \<^verbatim>\<open>SetBigData\<close>: if every image of the list had the invariant
    before, every image of the list has it afterwards, whatever the call returns.
\<close>

lemma digest_invariant_kept:
  "(Load E r = (res, r') \<and> (\<forall>l. imagesjson r \<noteq> Garbled l)
      \<longrightarrow> r' = r \<or> (\<forall>p\<in>set (images r'). digest_invariant E (heap r' p)))
   \<and> (Create E r iD names layer metadata created dg = Some (cres, c')
        \<and> (\<forall>p\<in>set (images r). digest_invariant E (heap r p))
      \<longrightarrow> (\<forall>p\<in>set (images c'). digest_invariant E (heap c' p)))
   \<and> (SetBigData E r iD key data f = (sres, s')
        \<and> (\<forall>p\<in>set (images r). digest_invariant E (heap r p))
      \<longrightarrow> (\<forall>p\<in>set (images s'). digest_invariant E (heap s' p)))"
  using Load_digest_invariant[of E r res r'] Create_digest_invariant[of E r iD names layer metadata created dg cres c']
    SetBigData_digest_invariant[of E r iD key data f sres s']
  by blast

lemma digest_invariant_kept_example:
  "Load ex_extern (emptyStore\<lparr>imagesjson := Json [json_fields ex_image_m]\<rparr>) = (None, ex_manifests_store)
   \<and> digest_invariant ex_extern (heap ex_manifests_store 0)
   \<and> digest_invariant ex_extern
        (heap (snd (SetBigData ex_extern ex_manifests_store ''m'' ''manifest-a'' [7]
                      (Some (\<lambda>b. Inr ''sha256:1'')))) 0)
   \<and> digest_invariant ex_extern
        (heap (snd (the (Create ex_extern ex_manifests_store ''c'' [] [] [] 0 ''sha256:7''))) 0)"
proof -
  let ?r0 = "emptyStore\<lparr>imagesjson := Json [json_fields ex_image_m]\<rparr>"
  let ?S = "SetBigData ex_extern ex_manifests_store ''m'' ''manifest-a'' [7] (Some (\<lambda>b. Inr ''sha256:1''))"
  let ?C = "Create ex_extern ex_manifests_store ''c'' [] [] [] 0 ''sha256:7''"
  have ng: "\<forall>l. imagesjson ?r0 \<noteq> Garbled l" by simp
  have ne: "ex_manifests_store \<noteq> ?r0"
  proof
    assume "ex_manifests_store = ?r0"
    then have "images ex_manifests_store = images ?r0" by simp
    then show False by (simp add: ex_manifests_store_def emptyStore_def)
  qed
  have im: "images ex_manifests_store = [0]" by (simp add: ex_manifests_store_def emptyStore_def)
  from digest_invariant_kept[where E = ex_extern and r = ?r0 and res = None
          and r' = ex_manifests_store] ex_manifests_store_loaded ng ne
  have 1: "\<forall>p\<in>set (images ex_manifests_store). digest_invariant ex_extern (heap ex_manifests_store p)"
    by blast
  then have a: "digest_invariant ex_extern (heap ex_manifests_store 0)" by (simp add: im)
  have S: "?S = (fst ?S, snd ?S)" by simp
  from digest_invariant_kept[where E = ex_extern and r = ex_manifests_store and iD = "''m''"
          and key = "''manifest-a''" and data = "[7]" and f = "Some (\<lambda>b. Inr ''sha256:1'')"
          and sres = "fst ?S" and s' = "snd ?S"] S 1
  have 2: "\<forall>p\<in>set (images (snd ?S)). digest_invariant ex_extern (heap (snd ?S) p)" by blast
  have "images (snd ?S) = [0]" using SetBigData_result[OF S] im by auto
  with 2 have b: "digest_invariant ex_extern (heap (snd ?S) 0)" by simp
  have "?C \<noteq> None" by (simp add: Create_def IsReadWrite_def ex_manifests_store_def emptyStore_def
        dedupeNames_def Let_def split: sum.splits prod.splits)
  then have C: "?C = Some (fst (the ?C), snd (the ?C))" by auto
  from digest_invariant_kept[where E = ex_extern and r = ex_manifests_store and iD = "''c''"
          and names = "[]" and layer = "[]" and metadata = "[]" and created = 0
          and dg = "''sha256:7''" and cres = "fst (the ?C)" and c' = "snd (the ?C)"] C 1
  have 3: "\<forall>p\<in>set (images (snd (the ?C))). digest_invariant ex_extern (heap (snd (the ?C)) p)" by blast
  have "0 \<in> set (images (snd (the ?C)))" using Create_result[OF C] im by auto
  with 3 have c: "digest_invariant ex_extern (heap (snd (the ?C)) 0)" by blast
  from ex_manifests_store_loaded a b c show ?thesis by blast
qed

text \<open>
  Claim C7 fails in the code on a snapshot that \<^verbatim>\<open>json.Unmarshal\<close> rejects. \<^verbatim>\<open>Load\<close> then
  skips its loop, recomputes no digests, and still installs the records decoded so far
  and returns no error: the store holds an image whose \<open>Digest\<close> is set and whose
  \<open>Digests\<close> is empty, against the invariant (and against the comment of the field: "If
  Digest is set, its value is also in this list"). On every other path the invariant
  holds: the lemma \<open>digest_invariant_kept\<close> above.
\<close>

theorem C7_Load_unparseable:
  "fst (Load ex_extern ex_unparseable) = None
   \<and> images (snd (Load ex_extern ex_unparseable)) = [0]
   \<and> Digest (heap (snd (Load ex_extern ex_unparseable)) 0) = ''sha256:0''
   \<and> Digests (heap (snd (Load ex_extern ex_unparseable)) 0) = []
   \<and> \<not> digest_invariant ex_extern (heap (snd (Load ex_extern ex_unparseable)) 0)"
  by (simp add: Load_def Let_def ex_unparseable_def emptyStore_def zeroImage_def
        digest_invariant_def upt_rec)

theorem C7_Load_unparseable_witness:
  "Digest (heap (snd (Load ex_extern ex_unparseable)) 0)
     \<notin> set (Digests (heap (snd (Load ex_extern ex_unparseable)) 0))"
  using C7_Load_unparseable by simp

subsection \<open>SetBigData: when the snapshot is saved\<close>

lemma recomputeDigests_loop_succeeds:
  "list_all (\<lambda>(n, d). \<not> bigDataNameIsManifest n \<or> v d) es \<Longrightarrow>
     \<exists>st'. recomputeDigests_loop v es st = Inr st'"
proof (induction es arbitrary: st)
  case Nil then show ?case by simp
next
  case (Cons e es)
  obtain n d where e: "e = (n, d)" by (cases e)
  obtain vd ds where st: "st = (vd, ds)" by (cases st)
  from Cons.prems e have ok: "\<not> bigDataNameIsManifest n \<or> v d" and rest:
    "list_all (\<lambda>(n, d). \<not> bigDataNameIsManifest n \<or> v d) es" by auto
  from Cons.IH[OF rest] ok show ?case unfolding e st by auto
qed

lemma set_manifest_digests:
  "set (manifest_digests m) = {d. \<exists>n. (n, d) \<in> set m \<and> bigDataNameIsManifest n}"
  by (force simp: manifest_digests_def)

lemma manifest_digests_valid:
  "list_all v (manifest_digests m) = list_all (\<lambda>(n, d). \<not> bigDataNameIsManifest n \<or> v d) m"
  by (induction m) (auto simp: manifest_digests_def)

lemma recomputeDigests_again:
  assumes cur: "digests_current E i"
    and perm: "mset (mapOrder E (BigDataDigests i)) = mset (BigDataDigests i)"
  shows "\<exists>ds. recomputeDigests E i = Inr (i\<lparr>Digests := ds\<rparr>) \<and> mset ds = mset (Digests i)
            \<and> hd ds = hd (Digests i)"
proof -
  let ?es = "mapOrder E (BigDataDigests i)"
  from perm have sets: "set ?es = set (BigDataDigests i)" by (metis set_mset_mset)
  from cur have "list_all (\<lambda>(n, d). \<not> bigDataNameIsManifest n \<or> Validate E d) (BigDataDigests i)"
    by (simp add: digests_current_def manifest_digests_valid)
  then have ok: "list_all (\<lambda>(n, d). \<not> bigDataNameIsManifest n \<or> Validate E d) ?es"
    using sets by (simp add: list_all_iff)
  let ?init = "if Digest i \<noteq> [] then ([Digest i], {Digest i}) else ([], {})"
  from recomputeDigests_loop_succeeds[OF ok, of ?init] obtain vd ds where
    l: "recomputeDigests_loop (Validate E) ?es ?init = Inr (vd, ds)" by (metis surj_pair)
  from cur have v: "Digest i = [] \<or> Validate E (Digest i)" by (simp add: digests_current_def)
  have inv: "distinct vd \<and> (\<exists>suf. vd = fst ?init @ suf)
     \<and> set vd = set (fst ?init) \<union> {d. \<exists>n. (n, d) \<in> set ?es \<and> bigDataNameIsManifest n}"
  proof (cases "Digest i = []")
    case True
    with l have "recomputeDigests_loop (Validate E) ?es ([], {}) = Inr (vd, ds)" by simp
    from recomputeDigests_loop_inv[OF this] True show ?thesis by simp
  next
    case False
    with l have "recomputeDigests_loop (Validate E) ?es ([Digest i], {Digest i}) = Inr (vd, ds)"
      by simp
    from recomputeDigests_loop_inv[OF this] False v show ?thesis by simp
  qed
  from cur have seteq: "set (Digests i) =
          (if Digest i = [] then {} else {Digest i})
          \<union> {d. \<exists>n. (n, d) \<in> set (BigDataDigests i) \<and> bigDataNameIsManifest n}"
    and dist: "distinct (Digests i)"
    and hd: "if Digest i = [] then Digests i = [] else hd (Digests i) = Digest i"
    by (simp_all add: digests_current_def set_manifest_digests)
  from inv seteq sets have s: "set vd = set (Digests i)" by (auto split: if_splits)
  from inv have dvd: "distinct vd" by blast
  from s dvd dist have m: "mset vd = mset (Digests i)"
    using set_eq_iff_mset_eq_distinct by blast
  have h: "hd vd = hd (Digests i)"
  proof (cases "Digest i = []")
    case True
    with hd s show ?thesis by simp
  next
    case False
    with inv hd show ?thesis by auto
  qed
  have dg: "(if Digest i = [] \<and> vd \<noteq> [] then hd vd else Digest i) = Digest i"
  proof (cases "Digest i = []")
    case True
    with hd s show ?thesis by simp
  next
    case False then show ?thesis by simp
  qed
  have "recomputeDigests E i = Inr (i\<lparr>Digests := vd\<rparr>)"
    using l v dg by (cases "Digest i = []") (simp_all add: recomputeDigests_def)
  with m h show ?thesis by blast
qed

lemma SetBigData_cache_same:
  assumes "\<not> SetBigData_save i0 key data newDigest"
  shows "SetBigData_cache i0 key data newDigest = i0"
proof -
  from assms have k: "key \<in> set (BigDataNames i0)"
    and sz: "BigDataSizes i0 key = Some (int (length data))"
    and dg: "map_of (BigDataDigests i0) key = Some newDigest"
    by (simp_all add: SetBigData_save_iff)
  from sz have "(BigDataSizes i0)(key \<mapsto> int (length data)) = BigDataSizes i0" by auto
  moreover from dg have "AList.update key newDigest (BigDataDigests i0) = BigDataDigests i0"
    by (rule update_triv)
  ultimately show ?thesis using k by (simp add: SetBigData_cache_def)
qed


text \<open>
  Claim C6, as amended. For every successful \<^verbatim>\<open>SetBigData\<close> call on an existing image,
  the blob file is written and the record caches the new size and digest under the key.
  The snapshot is persisted exactly when some cached metadata changed: the key is new to
  \<open>BigDataNames\<close>, or its cached size differs from the new size, or its cached digest
  differs from the new digest. Otherwise the snapshot and the lock file's modification
  mark are as before, the other records are as before, and the record is what
  \<^verbatim>\<open>recomputeDigests\<close> makes of it: when its \<open>Digests\<close> were up to date, every field is
  as before except that \<open>Digests\<close> holds the same digests, the same one first, the others
  in the order of this iteration over the map.
\<close>

theorem C6_SetBigData_save:
  assumes S: "SetBigData E r iD key data f = (None, r')"
    and img: "lookup r iD = Some img"
    and nd: "SetBigData_digest E key data f = Inr newDigest"
  shows "blobs r' (ID (heap r img), key) = Some data
       \<and> BigDataSizes (heap r' img) key = Some (int (length data))
       \<and> map_of (BigDataDigests (heap r' img)) key = Some newDigest
       \<and> key \<in> set (BigDataNames (heap r' img))
       \<and> (if key \<notin> set (BigDataNames (heap r img))
              \<or> BigDataSizes (heap r img) key \<noteq> Some (int (length data))
              \<or> map_of (BigDataDigests (heap r img)) key \<noteq> Some newDigest
           then imagesjson r' = Json (map (\<lambda>p. json_fields (heap r' p)) (images r'))
                \<and> lockfile_touches r' = Suc (lockfile_touches r)
           else imagesjson r' = imagesjson r
                \<and> lockfile_touches r' = lockfile_touches r
                \<and> recomputeDigests E (heap r img) = Inr (heap r' img)
                \<and> (\<forall>p. p \<noteq> img \<longrightarrow> heap r' p = heap r p)
                \<and> (digests_current E (heap r img)
                     \<and> mset (mapOrder E (BigDataDigests (heap r img)))
                         = mset (BigDataDigests (heap r img))
                    \<longrightarrow> (\<exists>ds. heap r' img = (heap r img)\<lparr>Digests := ds\<rparr>
                           \<and> mset ds = mset (Digests (heap r img))
                           \<and> hd ds = hd (Digests (heap r img)))))"
proof -
  let ?i0 = "heap r img"
  let ?i1 = "SetBigData_cache ?i0 key data newDigest"
  let ?changed = "key \<notin> set (BigDataNames ?i0)
              \<or> BigDataSizes ?i0 key \<noteq> Some (int (length data))
              \<or> map_of (BigDataDigests ?i0) key \<noteq> Some newDigest"
  from SetBigData_result[OF S] img nd obtain i2 r3 where
    bl: "blobs r' = (blobs r)((ID ?i0, key) \<mapsto> data)" and
    rc: "recomputeDigests E ?i1 = Inr i2" and
    r3: "r3 = r\<lparr>datadirs := insert (ID ?i0) (datadirs r),
                 blobs := (blobs r)((ID ?i0, key) \<mapsto> data),
                 heap := (heap r)(img := i2),
                 bydigest := SetBigData_index img (Digests i2)
                               (SetBigData_prune img (Digests ?i0) (bydigest r))\<rparr>" and
    hp: "heap r' = heap r3" and
    res: "(None, r') = (if SetBigData_save ?i0 key data newDigest then Save E r3 else (None, r3))"
    by auto
  have h': "heap r' img = i2" by (simp add: hp r3)
  from recomputeDigests_fields[OF rc] have i2: "i2 = ?i1\<lparr>Digest := Digest i2, Digests := Digests i2\<rparr>" .
  have c1: "BigDataSizes i2 key = Some (int (length data))"
    by (subst i2) (simp add: SetBigData_cache_def Let_def)
  have c2: "map_of (BigDataDigests i2) key = Some newDigest"
    by (subst i2) (simp add: SetBigData_cache_def Let_def update_conv')
  have c3: "key \<in> set (BigDataNames i2)"
    by (subst i2) (simp add: SetBigData_cache_def Let_def)
  have 1: "blobs r' (ID ?i0, key) = Some data" by (simp add: bl)
  have sv: "SetBigData_save ?i0 key data newDigest \<longleftrightarrow> ?changed"
    by (rule SetBigData_save_iff)
  show ?thesis
  proof (cases ?changed)
    case True
    with res sv have "Save E r3 = (None, r')" by simp
    from Save_None[OF this] Save_result[OF this]
    have "imagesjson r' = Json (map (\<lambda>p. json_fields (heap r' p)) (images r'))
          \<and> lockfile_touches r' = Suc (lockfile_touches r)"
      by (simp add: r3)
    with True 1 c1 c2 c3 h' show ?thesis by simp
  next
    case False
    with res sv have r': "r' = r3" by simp
    from False sv have same: "?i1 = ?i0" by (simp add: SetBigData_cache_same)
    have a: "recomputeDigests E ?i0 = Inr (heap r' img)" using rc same h' by simp
    have b: "\<forall>p. p \<noteq> img \<longrightarrow> heap r' p = heap r p" by (simp add: r' r3)
    have c: "digests_current E ?i0
                     \<and> mset (mapOrder E (BigDataDigests ?i0)) = mset (BigDataDigests ?i0)
                    \<longrightarrow> (\<exists>ds. heap r' img = ?i0\<lparr>Digests := ds\<rparr>
                           \<and> mset ds = mset (Digests ?i0) \<and> hd ds = hd (Digests ?i0))"
    proof
      assume h: "digests_current E ?i0
                 \<and> mset (mapOrder E (BigDataDigests ?i0)) = mset (BigDataDigests ?i0)"
      from recomputeDigests_again[OF conjunct1[OF h] conjunct2[OF h]] obtain ds where
        ds: "recomputeDigests E ?i0 = Inr (?i0\<lparr>Digests := ds\<rparr>)" "mset ds = mset (Digests ?i0)"
            "hd ds = hd (Digests ?i0)" by blast
      from a ds(1) have "heap r' img = ?i0\<lparr>Digests := ds\<rparr>" by simp
      with ds show "\<exists>ds. heap r' img = ?i0\<lparr>Digests := ds\<rparr>
                           \<and> mset ds = mset (Digests ?i0) \<and> hd ds = hd (Digests ?i0)" by blast
    qed
    have d: "imagesjson r' = imagesjson r \<and> lockfile_touches r' = lockfile_touches r"
      by (simp add: r' r3)
    from False 1 c1 c2 c3 h' a b c d show ?thesis by simp
  qed
qed

lemma ex_image_m_current: "digests_current ex_extern (heap ex_manifests_store 0)"
  by (simp add: digests_current_def manifest_digests_def ex_manifests_store_def emptyStore_def
        ex_image_m_def zeroImage_def ex_extern_def manifest_a_is_manifest manifest_b_is_manifest)

lemma ex_SetBigData_unchanged:
  "fst (SetBigData ex_extern ex_manifests_store ''m'' ''manifest-a'' [7]
          (Some (\<lambda>b. Inr ''sha256:1''))) = None"
  by (simp add: SetBigData_def SetBigData_digest_def Let_def lookup_def IsReadWrite_def
        SetBigData_save_def SetBigData_cache_def recomputeDigests_def manifest_a_is_manifest
        manifest_b_is_manifest ex_manifests_store_def emptyStore_def ex_image_m_def zeroImage_def
        ex_extern_def)

lemma ex_SetBigData_changed:
  "fst (SetBigData ex_extern ex_manifests_store ''m'' ''manifest-a'' [7, 8]
          (Some (\<lambda>b. Inr ''sha256:1''))) = None"
  by (simp add: SetBigData_def SetBigData_digest_def Let_def lookup_def IsReadWrite_def Locked_def
        Save_def Touch_def SetBigData_save_def SetBigData_cache_def recomputeDigests_def
        manifest_a_is_manifest manifest_b_is_manifest ex_manifests_store_def emptyStore_def
        ex_image_m_def zeroImage_def ex_extern_def)

theorem C6_SetBigData_save_witness:
  "lookup ex_manifests_store ''m'' = Some 0
   \<and> fst (SetBigData ex_extern ex_manifests_store ''m'' ''manifest-a'' [7]
             (Some (\<lambda>b. Inr ''sha256:1''))) = None
   \<and> blobs (snd (SetBigData ex_extern ex_manifests_store ''m'' ''manifest-a'' [7]
                   (Some (\<lambda>b. Inr ''sha256:1'')))) (''m'', ''manifest-a'') = Some [7]
   \<and> imagesjson (snd (SetBigData ex_extern ex_manifests_store ''m'' ''manifest-a'' [7]
                        (Some (\<lambda>b. Inr ''sha256:1'')))) = imagesjson ex_manifests_store
   \<and> lockfile_touches (snd (SetBigData ex_extern ex_manifests_store ''m'' ''manifest-a'' [7]
                              (Some (\<lambda>b. Inr ''sha256:1'')))) = 0
   \<and> (\<exists>ds. heap (snd (SetBigData ex_extern ex_manifests_store ''m'' ''manifest-a'' [7]
                          (Some (\<lambda>b. Inr ''sha256:1'')))) 0 = ex_image_m\<lparr>Digests := ds\<rparr>
            \<and> mset ds = mset (Digests ex_image_m) \<and> hd ds = ''sha256:0'')
   \<and> fst (SetBigData ex_extern ex_manifests_store ''m'' ''manifest-a'' [7, 8]
             (Some (\<lambda>b. Inr ''sha256:1''))) = None
   \<and> lockfile_touches (snd (SetBigData ex_extern ex_manifests_store ''m'' ''manifest-a'' [7, 8]
                              (Some (\<lambda>b. Inr ''sha256:1'')))) = 1"
proof -
  let ?f = "Some (\<lambda>b. Inr ''sha256:1'') :: (bytes \<Rightarrow> error + digest) option"
  let ?S = "SetBigData ex_extern ex_manifests_store ''m'' ''manifest-a'' [7] ?f"
  let ?T = "SetBigData ex_extern ex_manifests_store ''m'' ''manifest-a'' [7, 8] ?f"
  have S: "?S = (None, snd ?S)" using ex_SetBigData_unchanged by (simp add: prod_eq_iff)
  have T: "?T = (None, snd ?T)" using ex_SetBigData_changed by (simp add: prod_eq_iff)
  have lk: "lookup ex_manifests_store ''m'' = Some 0"
    by (simp add: lookup_def ex_manifests_store_def emptyStore_def)
  have nd: "SetBigData_digest ex_extern ''manifest-a'' d ?f = Inr ''sha256:1''" for d
    by (simp add: SetBigData_digest_def manifest_a_is_manifest)
  have h0: "heap ex_manifests_store 0 = ex_image_m"
    by (simp add: ex_manifests_store_def emptyStore_def)
  have t0: "lockfile_touches ex_manifests_store = 0"
    by (simp add: ex_manifests_store_def emptyStore_def)
  have perm: "mset (mapOrder ex_extern (BigDataDigests ex_image_m)) = mset (BigDataDigests ex_image_m)"
    by (simp add: ex_extern_def)
  have cur: "digests_current ex_extern ex_image_m" using ex_image_m_current by (simp add: h0)
  have f: "''manifest-a'' \<in> set (BigDataNames ex_image_m)"
    "BigDataSizes ex_image_m ''manifest-a'' = Some 1"
    "map_of (BigDataDigests ex_image_m) ''manifest-a'' = Some ''sha256:1''"
    "ID ex_image_m = ''m''" "hd (Digests ex_image_m) = ''sha256:0''"
    by (simp_all add: ex_image_m_def zeroImage_def)
  from C6_SetBigData_save[OF S lk nd]
  have a: "blobs (snd ?S) (''m'', ''manifest-a'') = Some [7]
         \<and> imagesjson (snd ?S) = imagesjson ex_manifests_store \<and> lockfile_touches (snd ?S) = 0
         \<and> (\<exists>ds. heap (snd ?S) 0 = ex_image_m\<lparr>Digests := ds\<rparr>
            \<and> mset ds = mset (Digests ex_image_m) \<and> hd ds = ''sha256:0'')"
    unfolding h0 using f t0 cur perm by simp
  from C6_SetBigData_save[OF T lk nd]
  have b: "lockfile_touches (snd ?T) = 1"
    unfolding h0 using f t0 by simp
  from a b lk ex_SetBigData_unchanged ex_SetBigData_changed
  show ?thesis by simp
qed

text \<open>
  The claim as stated fails when nothing cached changes and the iteration over the map
  visits the manifests in another order than the one that produced the current list: the
  snapshot is not saved, and the record's \<open>Digests\<close> come back reordered.
\<close>

theorem C6_reordered_counterexample:
  "fst (SetBigData (ex_extern\<lparr>mapOrder := rev\<rparr>) ex_manifests_store ''m'' ''manifest-a'' [7]
          (Some (\<lambda>b. Inr ''sha256:1''))) = None
   \<and> ''manifest-a'' \<in> set (BigDataNames (heap ex_manifests_store 0))
   \<and> BigDataSizes (heap ex_manifests_store 0) ''manifest-a'' = Some (int (length [7::nat]))
   \<and> map_of (BigDataDigests (heap ex_manifests_store 0)) ''manifest-a'' = Some ''sha256:1''
   \<and> Digests (heap ex_manifests_store 0) = [''sha256:0'', ''sha256:1'', ''sha256:2'']
   \<and> Digests (heap (snd (SetBigData (ex_extern\<lparr>mapOrder := rev\<rparr>) ex_manifests_store ''m''
                             ''manifest-a'' [7] (Some (\<lambda>b. Inr ''sha256:1'')))) 0)
       = [''sha256:0'', ''sha256:2'', ''sha256:1'']"
  by (simp add: SetBigData_def SetBigData_digest_def Let_def lookup_def IsReadWrite_def
        SetBigData_save_def SetBigData_cache_def recomputeDigests_def manifest_a_is_manifest
        manifest_b_is_manifest ex_manifests_store_def emptyStore_def ex_image_m_def zeroImage_def
        ex_extern_def)

subsection \<open>Save, then Load\<close>



lemma names_json_fields:
  "map Names (map (\<lambda>p. json_fields (h p)) ps) = map (\<lambda>p. Names (h p)) ps"
  by (simp add: json_fields_def)





end
